theory Spec2Isabelle
  imports Complex_Main
begin

section \<open>Python values used by the analyzer\<close>

text \<open>
  A Python \<open>dict\<close> keeps its keys in insertion order and holds one value per key:
  \<open>d[k] = v\<close> replaces the value in place when \<open>k\<close> is present and appends the pair
  otherwise. It is modelled as an association list, \<open>len(d)\<close> is \<open>length d\<close>,
  iterating \<open>d\<close> walks \<open>map fst d\<close>, \<open>d.values()\<close> is \<open>map snd d\<close>.
\<close>

type_synonym ('k, 'v) dict = "('k \<times> 'v) list"

fun dict_set :: "'k \<Rightarrow> 'v \<Rightarrow> ('k, 'v) dict \<Rightarrow> ('k, 'v) dict" where
  "dict_set k v [] = [(k, v)]"
| "dict_set k v ((k', v') # d) =
     (if k' = k then (k, v) # d else (k', v') # dict_set k v d)"

text \<open>
  The exceptions that can reach the plugin's \<open>except Exception\<close>: the ones raised by
  \<open>open\<close>/\<open>read\<close>, by \<open>ast.parse\<close> and by a float division.
\<close>

datatype error = SyntaxError | OSError | ZeroDivisionError

text \<open>
  Percentages are Python floats. A float operation returns the exact result rounded to
  the nearest float, so the model takes the rounding \<open>rnd\<close> as a parameter and computes
  on the reals: \<open>x / y\<close> is \<open>rnd\<close> of the exact quotient and raises
  \<open>ZeroDivisionError\<close> when \<open>y\<close> is zero (Python never returns a NaN there),
  \<open>x * 100\<close> is \<open>rnd\<close> of the exact product. The theorems that compare percentages
  assume of \<open>rnd\<close> only what rounding to nearest gives: it is monotone and leaves the
  floats 0, 1 and 100 as they are.
\<close>

definition truediv :: "(real \<Rightarrow> real) \<Rightarrow> nat \<Rightarrow> nat \<Rightarrow> error + real" where
  "truediv rnd x y = (if y = 0 then Inl ZeroDivisionError else Inr (rnd (real x / real y)))"

definition fmul :: "(real \<Rightarrow> real) \<Rightarrow> real \<Rightarrow> real \<Rightarrow> real" where
  "fmul rnd x y = rnd (x * y)"

definition rounding :: "(real \<Rightarrow> real) \<Rightarrow> bool" where
  "rounding rnd \<longleftrightarrow> mono rnd \<and> rnd 0 = 0 \<and> rnd 1 = 1 \<and> rnd 100 = 100"

section \<open>The syntax tree\<close>

text \<open>
  The tree is what \<open>ast.parse\<close> returns, kept as far as the visitor looks at it: the
  node type it dispatches on, the attributes it reads (\<open>name\<close>, \<open>lineno\<close>,
  \<open>end_lineno\<close>, the operator of a unary operation) and the child nodes in the order
  in which \<open>generic_visit\<close> walks them. \<open>ClassDef\<close> and \<open>FunctionDef\<close> are read
  with \<open>getattr\<close> and a default, so their line attributes may be absent. Every node
  type without a visitor method of its own (\<open>Module\<close>, \<open>If\<close>, \<open>Name\<close>,
  \<open>Return\<close>, operators, ...) is \<open>Other\<close>; \<open>AsyncFunctionDef\<close> is such a type as
  well and is kept apart only to state what happens to it.
\<close>

datatype unaryop = Invert | Not | UAdd | USub

datatype node =
    ClassDef string "int option" "int option" "node list"
  | FunctionDef string "int option" "int option" "node list"
  | AsyncFunctionDef string "int option" "int option" "node list"
  | Compare int "node list"
  | BoolOp int "node list"
  | UnaryOp unaryop int "node list"
  | Other "node list"

section \<open>analyzer.py\<close>

subsection \<open>ClassInfo\<close>

record ClassInfo =
  name :: string
  start_line :: int
  end_line :: int
  methods :: "(string, int \<times> int) dict"
  conditions :: nat
  covered_conditions :: nat

definition ClassInfo_init :: "string \<Rightarrow> int \<Rightarrow> int \<Rightarrow> ClassInfo" where
  "ClassInfo_init n s e =
     \<lparr>name = n, start_line = s, end_line = e, methods = [], conditions = 0,
      covered_conditions = 0\<rparr>"

definition add_method :: "string \<Rightarrow> int \<Rightarrow> int \<Rightarrow> ClassInfo \<Rightarrow> ClassInfo" where
  "add_method n s e ci = ci\<lparr>methods := dict_set n (s, e) (methods ci)\<rparr>"

subsection \<open>ConditionVisitor\<close>

text \<open>
  \<open>ClassInfo\<close> objects are mutable and shared between \<open>self.classes\<close> and
  \<open>self.current_class\<close>, so the visitor holds them in a store: \<open>objects\<close> is the list
  of all \<open>ClassInfo\<close> objects created so far, a reference is an index into it.
\<close>

type_synonym ref = nat

record ConditionVisitor =
  v_conditions :: "(int, node) dict"
  current_class :: "ref option"
  v_classes :: "(string, ref) dict"
  objects :: "ClassInfo list"

definition ConditionVisitor_init :: ConditionVisitor where
  "ConditionVisitor_init =
     \<lparr>v_conditions = [], current_class = None, v_classes = [], objects = []\<rparr>"

definition get_node_lines :: "int option \<Rightarrow> int option \<Rightarrow> int \<times> int" where
  "get_node_lines lineno end_lineno =
     (let start_line = (case lineno of None \<Rightarrow> 0 | Some l \<Rightarrow> l);
          end_line = (case end_lineno of None \<Rightarrow> start_line | Some e \<Rightarrow> e)
      in (start_line, end_line))"

text \<open>
  The bodies of \<open>visit_Compare\<close>, \<open>visit_BoolOp\<close> and the \<open>Not\<close> branch of
  \<open>visit_UnaryOp\<close> are the same two statements:
  \<open>self.conditions[node.lineno] = node\<close> and, if there is a current class,
  \<open>self.current_class.conditions += 1\<close>.
\<close>

definition incr_conditions :: "ClassInfo \<Rightarrow> ClassInfo" where
  "incr_conditions ci = ci\<lparr>conditions := conditions ci + 1\<rparr>"

definition record_condition :: "int \<Rightarrow> node \<Rightarrow> ConditionVisitor \<Rightarrow> ConditionVisitor" where
  "record_condition lineno nd v =
     (let v1 = v\<lparr>v_conditions := dict_set lineno nd (v_conditions v)\<rparr>
      in case current_class v1 of
           None \<Rightarrow> v1
         | Some r \<Rightarrow> v1\<lparr>objects := (objects v1)[r := incr_conditions (objects v1 ! r)]\<rparr>)"

text \<open>
  The statements of \<open>visit_ClassDef\<close> before it walks the children (a new
  \<open>ClassInfo\<close> object, stored under the class name and made the current class), and
  the \<open>if self.current_class\<close> statement of \<open>visit_FunctionDef\<close>. An object is
  true in a condition, so the test asks only whether the reference is \<open>None\<close>.
\<close>

definition enter_class :: "string \<Rightarrow> int \<Rightarrow> int \<Rightarrow> ConditionVisitor \<Rightarrow> ConditionVisitor" where
  "enter_class n s e v =
     (let r = length (objects v)
      in v\<lparr>objects := objects v @ [ClassInfo_init n s e],
           v_classes := dict_set n r (v_classes v),
           current_class := Some r\<rparr>)"

definition record_method :: "string \<Rightarrow> int \<Rightarrow> int \<Rightarrow> ConditionVisitor \<Rightarrow> ConditionVisitor" where
  "record_method n s e v =
     (case current_class v of
        None \<Rightarrow> v
      | Some r \<Rightarrow> v\<lparr>objects := (objects v)[r := add_method n s e (objects v ! r)]\<rparr>)"

fun visit :: "node \<Rightarrow> ConditionVisitor \<Rightarrow> ConditionVisitor"
  and generic_visit :: "node list \<Rightarrow> ConditionVisitor \<Rightarrow> ConditionVisitor" where
  "visit (ClassDef n lineno end_lineno children) v =
     (let (start_line, end_line) = get_node_lines lineno end_lineno;
          v1 = enter_class n start_line end_line v;
          v2 = generic_visit children v1
      in v2\<lparr>current_class := None\<rparr>)"
| "visit (FunctionDef n lineno end_lineno children) v =
     (let (start_line, end_line) = get_node_lines lineno end_lineno
      in generic_visit children (record_method n start_line end_line v))"
| "visit (AsyncFunctionDef n lineno end_lineno children) v = generic_visit children v"
| "visit (Compare lineno children) v =
     generic_visit children (record_condition lineno (Compare lineno children) v)"
| "visit (BoolOp lineno children) v =
     generic_visit children (record_condition lineno (BoolOp lineno children) v)"
| "visit (UnaryOp op lineno children) v =
     generic_visit children
       (if op = Not then record_condition lineno (UnaryOp op lineno children) v else v)"
| "visit (Other children) v = generic_visit children v"
| "generic_visit [] v = v"
| "generic_visit (c # cs) v = generic_visit cs (visit c v)"

subsection \<open>ConditionCoverageAnalyzer\<close>

text \<open>
  \<open>ast.parse\<close> is a parameter: it returns the tree or raises. After the traversal the
  visitor is dropped and each name of \<open>visitor.classes\<close> holds an object of its own,
  so the analyzer keeps the objects themselves under their names.
\<close>

record ConditionCoverageAnalyzer =
  source_code :: string
  tree :: node
  a_conditions :: "(int, node) dict"
  a_covered_conditions :: "int set"
  a_classes :: "(string, ClassInfo) dict"

definition ConditionCoverageAnalyzer_init ::
  "(string \<Rightarrow> error + node) \<Rightarrow> string \<Rightarrow> error + ConditionCoverageAnalyzer" where
  "ConditionCoverageAnalyzer_init parse src =
     (case parse src of
        Inl e \<Rightarrow> Inl e
      | Inr t \<Rightarrow> Inr \<lparr>source_code = src, tree = t, a_conditions = [],
                      a_covered_conditions = {}, a_classes = []\<rparr>)"

definition find_conditions ::
  "ConditionCoverageAnalyzer \<Rightarrow> nat \<times> ConditionCoverageAnalyzer" where
  "find_conditions a =
     (let visitor = visit (tree a) ConditionVisitor_init;
          a1 = a\<lparr>a_conditions := v_conditions visitor,
                 a_classes := map (\<lambda>(n, r). (n, objects visitor ! r)) (v_classes visitor)\<rparr>
      in (length (a_conditions a1), a1))"

text \<open>The first loop of \<open>analyze_file\<close>, over the keys of \<open>self.conditions\<close>.\<close>

fun file_loop :: "int list \<Rightarrow> int set \<Rightarrow> nat \<times> int set \<Rightarrow> nat \<times> int set" where
  "file_loop [] executed_lines (covered, cs) = (covered, cs)"
| "file_loop (line_no # ls) executed_lines (covered, cs) =
     file_loop ls executed_lines
       (if line_no \<in> executed_lines then (covered + 1, insert line_no cs) else (covered, cs))"

text \<open>The inner loop of the second one, for one class.\<close>

fun class_loop :: "int list \<Rightarrow> int set \<Rightarrow> ClassInfo \<Rightarrow> nat \<Rightarrow> nat" where
  "class_loop [] executed_lines class_info class_covered = class_covered"
| "class_loop (line_no # ls) executed_lines class_info class_covered =
     class_loop ls executed_lines class_info
       (if line_no \<in> executed_lines \<and>
           start_line class_info \<le> line_no \<and> line_no \<le> end_line class_info
        then class_covered + 1 else class_covered)"

text \<open>
  \<open>coverage_data.get('executed_lines', set())\<close>: the argument is the value under that
  key, \<open>None\<close> when the key is absent.
\<close>

definition analyze_file ::
  "int set option \<Rightarrow> ConditionCoverageAnalyzer \<Rightarrow> (nat \<times> nat) \<times> ConditionCoverageAnalyzer" where
  "analyze_file coverage_data a =
     (let (total_conditions, a1) = find_conditions a;
          executed_lines = (case coverage_data of None \<Rightarrow> {} | Some ls \<Rightarrow> ls);
          (covered, cs) =
             file_loop (map fst (a_conditions a1)) executed_lines (0, a_covered_conditions a1);
          a2 = a1\<lparr>a_covered_conditions := cs\<rparr>;
          a3 = a2\<lparr>a_classes :=
                 map (\<lambda>(n, class_info).
                        (n, class_info\<lparr>covered_conditions :=
                              class_loop (map fst (a_conditions a2)) executed_lines class_info 0\<rparr>))
                     (a_classes a2)\<rparr>
      in ((total_conditions, covered), a3))"

text \<open>
  The dictionaries that \<open>get_class_coverage\<close> returns: one \<open>coverage\<close> per method
  (keys \<open>total_conditions\<close>, \<open>covered_conditions\<close>, \<open>coverage_percentage\<close>), and per
  class the same three keys and \<open>methods\<close>.
\<close>

record coverage =
  total_conditions :: nat
  covered :: nat
  coverage_percentage :: real

record class_coverage = coverage +
  methods_coverage :: "(string, coverage) dict"

definition class_percent :: "(real \<Rightarrow> real) \<Rightarrow> ClassInfo \<Rightarrow> error + real" where
  "class_percent rnd class_info =
     (if conditions class_info = 0 then Inr 100
      else case truediv rnd (covered_conditions class_info) (conditions class_info) of
             Inl e \<Rightarrow> Inl e
           | Inr q \<Rightarrow> Inr (fmul rnd q 100))"

fun method_loop ::
  "(int, node) dict \<Rightarrow> int \<Rightarrow> int \<Rightarrow> int set \<Rightarrow> nat \<times> nat \<Rightarrow> nat \<times> nat" where
  "method_loop [] lo hi cs (method_conditions, method_covered) =
     (method_conditions, method_covered)"
| "method_loop ((line_no, nd) # items) lo hi cs (method_conditions, method_covered) =
     method_loop items lo hi cs
       (if lo \<le> line_no \<and> line_no \<le> hi
        then (method_conditions + 1,
              if line_no \<in> cs then method_covered + 1 else method_covered)
        else (method_conditions, method_covered))"

definition method_entry ::
  "(real \<Rightarrow> real) \<Rightarrow> ConditionCoverageAnalyzer \<Rightarrow> int \<times> int \<Rightarrow> error + coverage" where
  "method_entry rnd a rng =
     (let (start_line, end_line) = rng;
          (method_conditions, method_covered) =
             method_loop (a_conditions a) start_line end_line (a_covered_conditions a) (0, 0)
      in case (if method_conditions = 0 then Inr 100
               else case truediv rnd method_covered method_conditions of
                      Inl e \<Rightarrow> Inl e
                    | Inr q \<Rightarrow> Inr (fmul rnd q 100)) of
           Inl e \<Rightarrow> Inl e
         | Inr method_coverage \<Rightarrow>
             Inr \<lparr>total_conditions = method_conditions, covered = method_covered,
                  coverage_percentage = method_coverage\<rparr>)"

fun methods_loop ::
  "(real \<Rightarrow> real) \<Rightarrow> ConditionCoverageAnalyzer \<Rightarrow> (string, int \<times> int) dict \<Rightarrow>
   (string, coverage) dict \<Rightarrow> error + (string, coverage) dict" where
  "methods_loop rnd a [] d = Inr d"
| "methods_loop rnd a ((method_name, rng) # ms) d =
     (case method_entry rnd a rng of
        Inl e \<Rightarrow> Inl e
      | Inr m \<Rightarrow> methods_loop rnd a ms (dict_set method_name m d))"

definition class_entry ::
  "(real \<Rightarrow> real) \<Rightarrow> ConditionCoverageAnalyzer \<Rightarrow> ClassInfo \<Rightarrow> error + class_coverage" where
  "class_entry rnd a class_info =
     (case class_percent rnd class_info of
        Inl e \<Rightarrow> Inl e
      | Inr coverage_percent \<Rightarrow>
          (case methods_loop rnd a (methods class_info) [] of
             Inl e \<Rightarrow> Inl e
           | Inr ms \<Rightarrow>
               Inr \<lparr>total_conditions = conditions class_info,
                    covered = covered_conditions class_info,
                    coverage_percentage = coverage_percent,
                    methods_coverage = ms\<rparr>))"

fun classes_loop ::
  "(real \<Rightarrow> real) \<Rightarrow> ConditionCoverageAnalyzer \<Rightarrow> (string, ClassInfo) dict \<Rightarrow>
   (string, class_coverage) dict \<Rightarrow> error + (string, class_coverage) dict" where
  "classes_loop rnd a [] d = Inr d"
| "classes_loop rnd a ((class_name, class_info) # cs) d =
     (case class_entry rnd a class_info of
        Inl e \<Rightarrow> Inl e
      | Inr c \<Rightarrow> classes_loop rnd a cs (dict_set class_name c d))"

definition get_class_coverage ::
  "(real \<Rightarrow> real) \<Rightarrow> ConditionCoverageAnalyzer \<Rightarrow> error + (string, class_coverage) dict" where
  "get_class_coverage rnd a = classes_loop rnd a (a_classes a) []"

section \<open>plugin.py\<close>

text \<open>
  What the plugin takes from outside: reading a file, \<open>ast.parse\<close>, the set of files
  with coverage data and the executed lines of a file (\<open>CoverageData.lines\<close>, which
  may return \<open>None\<close>), \<open>os.path.relpath\<close>, and the float rounding. The paths that
  \<open>_find_package_files\<close> returns are absolute already, so \<open>os.path.abspath\<close> leaves
  them as they are.
\<close>

record environment =
  read_source :: "string \<Rightarrow> error + string"
  ast_parse :: "string \<Rightarrow> error + node"
  measured_files :: "string set"
  coverage_lines :: "string \<Rightarrow> int set option"
  relpath :: "string \<Rightarrow> string"
  float_round :: "real \<Rightarrow> real"

record file_result =
  condition_coverage :: real
  file_total_conditions :: nat
  file_covered_conditions :: nat
  classes :: "(string, class_coverage) dict"

text \<open>
  The log: one \<open>WARNING\<close> for a file without coverage data, one \<open>ERROR\<close> for a file
  whose processing raised, and one \<open>INFO\<close> for the four lines logged about a file that
  was analysed.
\<close>

datatype log_record = INFO string | WARNING string | ERROR string error

record ConditionCoveragePlugin =
  condition_coverage_results :: "(string, file_result) dict"
  logged :: "log_record list"

definition ConditionCoveragePlugin_init :: ConditionCoveragePlugin where
  "ConditionCoveragePlugin_init = \<lparr>condition_coverage_results = [], logged = []\<rparr>"

definition file_percent :: "(real \<Rightarrow> real) \<Rightarrow> nat \<Rightarrow> nat \<Rightarrow> error + real" where
  "file_percent rnd covered_n total_n =
     (if total_n > 0
      then case truediv rnd covered_n total_n of
             Inl e \<Rightarrow> Inl e
           | Inr q \<Rightarrow> Inr (fmul rnd q 100)
      else Inr 100)"

text \<open>The body of the \<open>try\<close> statement, for one file.\<close>

definition analyze_source :: "environment \<Rightarrow> string \<Rightarrow> error + file_result" where
  "analyze_source env file_path =
     (case read_source env file_path of
        Inl e \<Rightarrow> Inl e
      | Inr source \<Rightarrow>
     (case ConditionCoverageAnalyzer_init (ast_parse env) source of
        Inl e \<Rightarrow> Inl e
      | Inr analyzer \<Rightarrow>
     (let lines = (case coverage_lines env file_path of None \<Rightarrow> {} | Some ls \<Rightarrow> ls);
          ((total_n, covered_n), analyzer1) = analyze_file (Some lines) analyzer
      in case file_percent (float_round env) covered_n total_n of
        Inl e \<Rightarrow> Inl e
      | Inr condition_cov \<Rightarrow>
     (case get_class_coverage (float_round env) analyzer1 of
        Inl e \<Rightarrow> Inl e
      | Inr class_cov \<Rightarrow>
          Inr \<lparr>condition_coverage = condition_cov, file_total_conditions = total_n,
               file_covered_conditions = covered_n, classes = class_cov\<rparr>))))"

text \<open>The body of the loop over \<open>files_to_analyze\<close>, and the loop.\<close>

definition process_file ::
  "environment \<Rightarrow> string \<Rightarrow> ConditionCoveragePlugin \<Rightarrow> ConditionCoveragePlugin" where
  "process_file env file_path p =
     (if file_path \<notin> measured_files env
      then p\<lparr>logged := logged p @ [WARNING file_path]\<rparr>
      else case analyze_source env file_path of
             Inl e \<Rightarrow> p\<lparr>logged := logged p @ [ERROR file_path e]\<rparr>
           | Inr r \<Rightarrow>
               p\<lparr>logged := logged p @ [INFO file_path],
                 condition_coverage_results :=
                   dict_set file_path r (condition_coverage_results p)\<rparr>)"

fun calculate_condition_coverage ::
  "environment \<Rightarrow> string list \<Rightarrow> ConditionCoveragePlugin \<Rightarrow> ConditionCoveragePlugin" where
  "calculate_condition_coverage env [] p = p"
| "calculate_condition_coverage env (file_path # fs) p =
     calculate_condition_coverage env fs (process_file env file_path p)"

text \<open>
  \<open>_generate_report\<close> up to the point where \<open>report_data\<close> is complete; writing it
  out as JSON and HTML is not modelled.
\<close>

record report_data =
  files :: "(string, file_result) dict"
  total_condition_coverage :: real

fun report_loop ::
  "(string \<Rightarrow> string) \<Rightarrow> (string, file_result) dict \<Rightarrow>
   nat \<times> nat \<times> (string, file_result) dict \<Rightarrow> nat \<times> nat \<times> (string, file_result) dict" where
  "report_loop rel [] (total_n, covered_n, fs) = (total_n, covered_n, fs)"
| "report_loop rel ((file_path, d) # items) (total_n, covered_n, fs) =
     report_loop rel items
       (total_n + file_total_conditions d, covered_n + file_covered_conditions d,
        dict_set (rel file_path) d fs)"

definition generate_report ::
  "environment \<Rightarrow> ConditionCoveragePlugin \<Rightarrow> error + report_data" where
  "generate_report env p =
     (let report0 = \<lparr>files = [], total_condition_coverage = 0\<rparr>;
          (total_n, covered_n, fs) =
             report_loop (relpath env) (condition_coverage_results p) (0, 0, files report0);
          report1 = report0\<lparr>files := fs\<rparr>
      in if total_n > 0
         then case truediv (float_round env) covered_n total_n of
                Inl e \<Rightarrow> Inl e
              | Inr q \<Rightarrow>
                  Inr (report1\<lparr>total_condition_coverage := fmul (float_round env) q 100\<rparr>)
         else Inr report1)"

section \<open>Closed forms and sample inputs\<close>

text \<open>
  The percentage that all three levels compute, the range test of the class and method
  loops, and the entries of \<open>get_class_coverage\<close> written without loops and without
  the error branch. The lemmas below show that the code computes exactly these.
\<close>

definition percent :: "(real \<Rightarrow> real) \<Rightarrow> nat \<Rightarrow> nat \<Rightarrow> real" where
  "percent rnd c t = (if t = 0 then 100 else fmul rnd (rnd (real c / real t)) 100)"

definition in_range :: "int \<Rightarrow> int \<Rightarrow> int \<Rightarrow> bool" where
  "in_range lo hi l \<longleftrightarrow> lo \<le> l \<and> l \<le> hi"

definition method_cov ::
  "(real \<Rightarrow> real) \<Rightarrow> ConditionCoverageAnalyzer \<Rightarrow> int \<times> int \<Rightarrow> coverage" where
  "method_cov rnd a rng =
     (let ls = filter (in_range (fst rng) (snd rng)) (map fst (a_conditions a));
          t = length ls;
          c = length (filter (\<lambda>l. l \<in> a_covered_conditions a) ls)
      in \<lparr>total_conditions = t, covered = c, coverage_percentage = percent rnd c t\<rparr>)"

definition class_cov ::
  "(real \<Rightarrow> real) \<Rightarrow> ConditionCoverageAnalyzer \<Rightarrow> ClassInfo \<Rightarrow> class_coverage" where
  "class_cov rnd a ci =
     \<lparr>total_conditions = conditions ci, covered = covered_conditions ci,
      coverage_percentage = percent rnd (covered_conditions ci) (conditions ci),
      methods_coverage = fold (\<lambda>(n, rng). dict_set n (method_cov rnd a rng)) (methods ci) []\<rparr>"

text \<open>
  The executed lines that \<open>analyze_file\<close> reads from its argument, and the order in
  which two coverage results are compared: the same names in the same order, and under
  each name no smaller \<open>covered_conditions\<close> and no smaller \<open>coverage_percentage\<close>,
  for a class also in each of its methods.
\<close>

definition executed_lines_of :: "int set option \<Rightarrow> int set" where
  "executed_lines_of coverage_data = (case coverage_data of None \<Rightarrow> {} | Some ls \<Rightarrow> ls)"

definition coverage_le :: "'a coverage_scheme \<Rightarrow> 'b coverage_scheme \<Rightarrow> bool" where
  "coverage_le c1 c2 \<longleftrightarrow>
     covered c1 \<le> covered c2 \<and> coverage_percentage c1 \<le> coverage_percentage c2"

definition dict_le :: "('v \<Rightarrow> 'w \<Rightarrow> bool) \<Rightarrow> ('k, 'v) dict \<Rightarrow> ('k, 'w) dict \<Rightarrow> bool" where
  "dict_le R d1 d2 = list_all2 (\<lambda>p q. fst p = fst q \<and> R (snd p) (snd q)) d1 d2"

definition class_le :: "class_coverage \<Rightarrow> class_coverage \<Rightarrow> bool" where
  "class_le c1 c2 \<longleftrightarrow>
     coverage_le c1 c2 \<and> dict_le coverage_le (methods_coverage c1) (methods_coverage c2)"

text \<open>
  What one pass of the plugin's loop over the files does to the results and to the log.
\<close>

definition results_step ::
  "environment \<Rightarrow> string \<Rightarrow> (string, file_result) dict \<Rightarrow> (string, file_result) dict" where
  "results_step env file_path rs =
     (if file_path \<in> measured_files env
      then case analyze_source env file_path of Inl e \<Rightarrow> rs | Inr r \<Rightarrow> dict_set file_path r rs
      else rs)"

definition log_step :: "environment \<Rightarrow> string \<Rightarrow> log_record" where
  "log_step env file_path =
     (if file_path \<in> measured_files env
      then case analyze_source env file_path of
             Inl e \<Rightarrow> ERROR file_path e
           | Inr r \<Rightarrow> INFO file_path
      else WARNING file_path)"

text \<open>
  One condition node per qualifying node, as the visitor classifies them: every
  \<open>Compare\<close>, every \<open>BoolOp\<close> and every \<open>UnaryOp\<close> with operator \<open>Not\<close>.
\<close>

fun condition_nodes :: "node \<Rightarrow> nat"
  and condition_nodes_list :: "node list \<Rightarrow> nat" where
  "condition_nodes (ClassDef n lineno end_lineno children) = condition_nodes_list children"
| "condition_nodes (FunctionDef n lineno end_lineno children) = condition_nodes_list children"
| "condition_nodes (AsyncFunctionDef n lineno end_lineno children) =
     condition_nodes_list children"
| "condition_nodes (Compare lineno children) = 1 + condition_nodes_list children"
| "condition_nodes (BoolOp lineno children) = 1 + condition_nodes_list children"
| "condition_nodes (UnaryOp op lineno children) =
     (if op = Not then 1 else 0) + condition_nodes_list children"
| "condition_nodes (Other children) = condition_nodes_list children"
| "condition_nodes_list [] = 0"
| "condition_nodes_list (c # cs) = condition_nodes c + condition_nodes_list cs"

text \<open>
  What a tree holds, read off without the visitor: the name and line range of each of
  its \<open>FunctionDef\<close> nodes, the lines of its condition nodes, and all its nodes. Each of them goes through
  an \<open>AsyncFunctionDef\<close> as through any other node.
\<close>

fun func_defs :: "node \<Rightarrow> (string \<times> int \<times> int) list"
  and func_defs_list :: "node list \<Rightarrow> (string \<times> int \<times> int) list" where
  "func_defs (ClassDef n lineno end_lineno children) = func_defs_list children"
| "func_defs (FunctionDef n lineno end_lineno children) =
     (n, get_node_lines lineno end_lineno) # func_defs_list children"
| "func_defs (AsyncFunctionDef n lineno end_lineno children) = func_defs_list children"
| "func_defs (Compare lineno children) = func_defs_list children"
| "func_defs (BoolOp lineno children) = func_defs_list children"
| "func_defs (UnaryOp op lineno children) = func_defs_list children"
| "func_defs (Other children) = func_defs_list children"
| "func_defs_list [] = []"
| "func_defs_list (c # cs) = func_defs c @ func_defs_list cs"



text \<open>
  \<open>methods_within N\<close>: from one visitor state to a later one, the method table of every
  object that existed gained entries of \<open>N\<close> only. \<open>conditions_grow L\<close>: the keys of
  \<open>self.conditions\<close> grew by the lines \<open>L\<close>, and stayed pairwise different.
\<close>

definition methods_within ::
  "(string \<times> int \<times> int) set \<Rightarrow> ConditionVisitor \<Rightarrow> ConditionVisitor \<Rightarrow> bool" where
  "methods_within N v v' \<longleftrightarrow>
     (\<forall>r < length (objects v).
        set (methods (objects v' ! r)) \<subseteq> set (methods (objects v ! r)) \<union> N)"


text \<open>
  The class definitions of a tree, in the order of the traversal, and what the traversal
  keeps fixed from one visitor state to a later one: the store only grows, the current
  class is the old one, none or a new object, the name and the line span of an object
  never change, an object that is not the current class is not touched, and every name
  of \<open>self.classes\<close> refers to an object of that name.
\<close>

fun class_defs :: "node \<Rightarrow> node list"
  and class_defs_list :: "node list \<Rightarrow> node list" where
  "class_defs (ClassDef n lineno end_lineno children) =
     ClassDef n lineno end_lineno children # class_defs_list children"
| "class_defs (FunctionDef n lineno end_lineno children) = class_defs_list children"
| "class_defs (AsyncFunctionDef n lineno end_lineno children) = class_defs_list children"
| "class_defs (Compare lineno children) = class_defs_list children"
| "class_defs (BoolOp lineno children) = class_defs_list children"
| "class_defs (UnaryOp op lineno children) = class_defs_list children"
| "class_defs (Other children) = class_defs_list children"
| "class_defs_list [] = []"
| "class_defs_list (c # cs) = class_defs c @ class_defs_list cs"

definition names_ok :: "ConditionVisitor \<Rightarrow> bool" where
  "names_ok v \<longleftrightarrow>
     (\<forall>n r. (n, r) \<in> set (v_classes v) \<longrightarrow> r < length (objects v) \<and> name (objects v ! r) = n)"

definition same_header :: "ClassInfo \<Rightarrow> ClassInfo \<Rightarrow> bool" where
  "same_header ci ci' \<longleftrightarrow>
     name ci' = name ci \<and> start_line ci' = start_line ci \<and> end_line ci' = end_line ci"

definition frame :: "ConditionVisitor \<Rightarrow> ConditionVisitor \<Rightarrow> bool" where
  "frame v v' \<longleftrightarrow>
     length (objects v) \<le> length (objects v') \<and>
     (current_class v' = current_class v \<or> current_class v' = None \<or>
      (\<exists>k \<ge> length (objects v). current_class v' = Some k)) \<and>
     (\<forall>r < length (objects v). same_header (objects v ! r) (objects v' ! r)) \<and>
     (\<forall>r < length (objects v). current_class v \<noteq> Some r \<longrightarrow> objects v' ! r = objects v ! r) \<and>
     (names_ok v \<longrightarrow> names_ok v')"

text \<open>
  \<open>counted r k\<close>: the class \<open>r\<close> is current before and after, no object was created and
  the counter of \<open>r\<close> went up by \<open>k\<close>. \<open>from_class_def D\<close>: the object carries the
  name and the line span of a class definition in \<open>D\<close>, its method table holds only
  entries of \<open>FunctionDef\<close> nodes of that definition, and if no class is defined inside
  that definition its counter is the number of condition nodes of the definition.
\<close>

definition counted :: "ref \<Rightarrow> nat \<Rightarrow> ConditionVisitor \<Rightarrow> ConditionVisitor \<Rightarrow> bool" where
  "counted r k v v' \<longleftrightarrow>
     current_class v' = Some r \<and> length (objects v') = length (objects v) \<and>
     conditions (objects v' ! r) = conditions (objects v ! r) + k"

definition cur_ok :: "ConditionVisitor \<Rightarrow> bool" where
  "cur_ok v \<longleftrightarrow> (\<forall>r. current_class v = Some r \<longrightarrow> r < length (objects v))"

definition from_class_def :: "node list \<Rightarrow> ClassInfo \<Rightarrow> bool" where
  "from_class_def D ci \<longleftrightarrow>
     (\<exists>lineno end_lineno children.
        ClassDef (name ci) lineno end_lineno children \<in> set D \<and>
        (start_line ci, end_line ci) = get_node_lines lineno end_lineno \<and>
        set (methods ci) \<subseteq> set (func_defs_list children) \<and>
        (class_defs_list children = [] \<longrightarrow> conditions ci = condition_nodes_list children))"

text \<open>
  The two halves of the roll-up as the specification words it: the class total is the
  number of file-level condition lines within the class's inclusive line range, and the
  method totals of a class sum to at most the class total.
\<close>

definition class_total_by_range ::
  "ConditionCoverageAnalyzer \<Rightarrow> string \<Rightarrow> class_coverage \<Rightarrow> bool" where
  "class_total_by_range a cn cc \<longleftrightarrow>
     (case map_of (a_classes a) cn of
        None \<Rightarrow> False
      | Some ci \<Rightarrow>
          total_conditions cc =
            length (filter (in_range (start_line ci) (end_line ci)) (map fst (a_conditions a))))"

definition methods_within_class_total :: "class_coverage \<Rightarrow> bool" where
  "methods_within_class_total cc \<longleftrightarrow>
     sum_list (map (\<lambda>(mn, mc). total_conditions mc) (methods_coverage cc)) \<le> total_conditions cc"

text \<open>
  Sample trees are written with the node types of Python's \<open>ast\<close> module. A \<open>Name\<close>
  has its context as only child, an operator and a constant have none.
\<close>

abbreviation Module :: "node list \<Rightarrow> node" where
  "Module body \<equiv> Other body"

abbreviation IfStmt :: "node \<Rightarrow> node list \<Rightarrow> node" where
  "IfStmt test body \<equiv> Other (test # body)"

abbreviation Return :: "node \<Rightarrow> node" where
  "Return val \<equiv> Other [val]"

abbreviation Name :: node where
  "Name \<equiv> Other [Other []]"

abbreviation Operator :: node where
  "Operator \<equiv> Other []"

abbreviation Constant :: node where
  "Constant \<equiv> Other []"

abbreviation Pass :: node where
  "Pass \<equiv> Other []"

abbreviation Arguments :: node where
  "Arguments \<equiv> Other [Other []]"

abbreviation Call :: "node \<Rightarrow> node list \<Rightarrow> node" where
  "Call func args \<equiv> Other (func # args)"

text \<open>The analyzer that the constructor returns for a source text with tree \<open>t\<close>.\<close>

definition fresh_analyzer :: "node \<Rightarrow> ConditionCoverageAnalyzer" where
  "fresh_analyzer t =
     \<lparr>source_code = [], tree = t, a_conditions = [], a_covered_conditions = {},
      a_classes = []\<rparr>"

text \<open>
  Two classes, the first with one condition, the second with none:
  \<^verbatim>\<open>
  class A:
      def f(self, x):
          if x > 0:
              return x
  class B:
      pass
  \<close>
\<close>

definition two_classes :: node where
  "two_classes =
     Module
       [ClassDef ''A'' (Some 1) (Some 4)
          [FunctionDef ''f'' (Some 2) (Some 4)
             [Arguments, IfStmt (Compare 3 [Name, Operator, Constant]) [Return Name]]],
        ClassDef ''B'' (Some 5) (Some 6) [Pass]]"

text \<open>
  A comparison inside a boolean combination, both on line 1:
  \<^verbatim>\<open>
  if a == b and c:
      pass
  \<close>
  and the same statement as the body of a method, on line 3:
  \<^verbatim>\<open>
  class Foo:
      def bar(self):
          if a == b and c:
              pass
  \<close>
\<close>

definition same_line :: node where
  "same_line =
     Module [IfStmt (BoolOp 1 [Operator, Compare 1 [Name, Operator, Name], Name]) [Pass]]"

definition same_line_in_class :: node where
  "same_line_in_class =
     Module
       [ClassDef ''Foo'' (Some 1) (Some 4)
          [FunctionDef ''bar'' (Some 2) (Some 4)
             [Arguments,
              IfStmt (BoolOp 3 [Operator, Compare 3 [Name, Operator, Name], Name]) [Pass]]]]"

text \<open>
  A class defined inside a class, followed by a method of the outer class:
  \<^verbatim>\<open>
  class Outer:
      class Inner:
          pass
      def m(self, x):
          if x > 0:
              return x
  \<close>
\<close>

definition nested_class :: node where
  "nested_class =
     Module
       [ClassDef ''Outer'' (Some 1) (Some 6)
          [ClassDef ''Inner'' (Some 2) (Some 3) [Pass],
           FunctionDef ''m'' (Some 4) (Some 6)
             [Arguments, IfStmt (Compare 5 [Name, Operator, Constant]) [Return Name]]]]"


text \<open>
  A decorated class whose method defines a function:
  \<^verbatim>\<open>
  @skipif(version < 3)
  class A:
      def f(self, x):
          def g(y):
              if y > 0:
                  return y == x
              return False
          return g
  \<close>
  The decorators of a class are children of its \<open>ClassDef\<close> node, walked after the
  body, and the node's \<open>lineno\<close> is the line of the \<open>class\<close> keyword.
\<close>

definition decorated_nested :: node where
  "decorated_nested =
     Module
       [ClassDef ''A'' (Some 2) (Some 8)
          [FunctionDef ''f'' (Some 3) (Some 8)
             [Arguments,
              FunctionDef ''g'' (Some 4) (Some 7)
                [Arguments,
                 IfStmt (Compare 5 [Name, Operator, Constant])
                   [Return (Compare 6 [Name, Operator, Name])],
                 Return Constant],
              Return Name],
           Call Name [Compare 1 [Name, Operator, Constant]]]]"

text \<open>
  A batch of three files: \<open>a.py\<close> holds the two classes above and has coverage data,
  \<open>empty.py\<close> is an empty module, \<open>bad.py\<close> does not parse.
\<close>

definition sample_env :: environment where
  "sample_env =
     \<lparr>read_source = (\<lambda>p. if p \<in> {''a.py'', ''bad.py'', ''empty.py''} then Inr (''source of '' @ p)
                          else Inl OSError),
      ast_parse = (\<lambda>src. if src = ''source of a.py'' then Inr two_classes
                         else if src = ''source of empty.py'' then Inr (Module [])
                         else Inl SyntaxError),
      measured_files = {''a.py'', ''bad.py'', ''empty.py''},
      coverage_lines = (\<lambda>p. if p = ''a.py'' then Some {1, 2, 3, 4} else None),
      relpath = (\<lambda>p. p),
      float_round = (\<lambda>x. x)\<rparr>"

section \<open>The loops in closed form\<close>

lemmas visitor_defs =
  ConditionVisitor_init_def enter_class_def record_method_def record_condition_def
  get_node_lines_def ClassInfo_init_def add_method_def incr_conditions_def

lemmas analyzer_defs = fresh_analyzer_def analyze_file_def find_conditions_def

lemmas plugin_defs =
  sample_env_def ConditionCoveragePlugin_init_def process_file_def analyze_source_def
  ConditionCoverageAnalyzer_init_def generate_report_def

lemmas coverage_defs =
  get_class_coverage_def class_entry_def class_percent_def method_entry_def truediv_def
  fmul_def file_percent_def

lemma method_loop_eq:
  "method_loop items lo hi cs (m, c) =
     (m + length (filter (in_range lo hi) (map fst items)),
      c + length (filter (\<lambda>l. l \<in> cs) (filter (in_range lo hi) (map fst items))))"
  by (induction items arbitrary: m c) (auto simp: in_range_def)

lemma file_loop_eq:
  "file_loop ls ex (c, cs) = (c + length (filter (\<lambda>l. l \<in> ex) ls), cs \<union> (set ls \<inter> ex))"
  by (induction ls arbitrary: c cs) auto

lemma class_loop_eq:
  "class_loop ls ex ci c =
     c + length (filter (\<lambda>l. l \<in> ex \<and> in_range (start_line ci) (end_line ci) l) ls)"
  by (induction ls arbitrary: c) (auto simp: in_range_def)

lemma method_entry_eq: "method_entry rnd a rng = Inr (method_cov rnd a rng)"
  by (cases rng)
    (simp add: method_entry_def method_cov_def method_loop_eq truediv_def percent_def Let_def
               filter_map)

lemma methods_loop_eq:
  "methods_loop rnd a ms d = Inr (fold (\<lambda>(n, rng). dict_set n (method_cov rnd a rng)) ms d)"
  by (induction ms arbitrary: d) (auto simp: method_entry_eq)

lemma class_entry_eq: "class_entry rnd a ci = Inr (class_cov rnd a ci)"
  by (simp add: class_entry_def class_cov_def class_percent_def methods_loop_eq truediv_def
                percent_def)

lemma classes_loop_eq:
  "classes_loop rnd a cs d = Inr (fold (\<lambda>(n, ci). dict_set n (class_cov rnd a ci)) cs d)"
  by (induction cs arbitrary: d) (auto simp: class_entry_eq)

lemma get_class_coverage_eq:
  "get_class_coverage rnd a =
     Inr (fold (\<lambda>(n, ci). dict_set n (class_cov rnd a ci)) (a_classes a) [])"
  by (simp add: get_class_coverage_def classes_loop_eq)

lemma file_percent_eq: "file_percent rnd c t = Inr (percent rnd c t)"
  by (simp add: file_percent_def percent_def truediv_def)

lemma percent_zero: "percent rnd c 0 = 100"
  by (simp add: percent_def)

lemma method_cov_percent:
  "coverage_percentage (method_cov rnd a rng) =
     percent rnd (covered (method_cov rnd a rng)) (total_conditions (method_cov rnd a rng))"
  by (simp add: method_cov_def Let_def)

lemma class_cov_percent:
  "coverage_percentage (class_cov rnd a ci) =
     percent rnd (covered (class_cov rnd a ci)) (total_conditions (class_cov rnd a ci))"
  by (simp add: class_cov_def)

lemma set_dict_set: "set (dict_set k v d) \<subseteq> insert (k, v) (set d)"
  by (induction d) (auto split: if_splits)

lemma set_fold_dict_set:
  "set (fold (\<lambda>(n, x). dict_set n (f x)) xs d) \<subseteq> set d \<union> (\<lambda>(n, x). (n, f x)) ` set xs"
proof (induction xs arbitrary: d)
  case Nil
  then show ?case by simp
next
  case (Cons p xs)
  obtain n x where p: "p = (n, x)" by (cases p)
  have "set (fold (\<lambda>(n, x). dict_set n (f x)) xs (dict_set n (f x) d))
          \<subseteq> set (dict_set n (f x) d) \<union> (\<lambda>(n, x). (n, f x)) ` set xs"
    by (rule Cons.IH)
  with set_dict_set [of n "f x" d] show ?case
    by (auto simp: p)
qed

lemma class_entries:
  assumes "get_class_coverage rnd a = Inr r" and "(cn, cc) \<in> set r"
  obtains ci where "(cn, ci) \<in> set (a_classes a)" and "cc = class_cov rnd a ci"
proof -
  from assms(1) have "r = fold (\<lambda>(n, ci). dict_set n (class_cov rnd a ci)) (a_classes a) []"
    by (simp add: get_class_coverage_eq)
  with assms(2) set_fold_dict_set [of "class_cov rnd a" "a_classes a" "[]"]
  have "(cn, cc) \<in> (\<lambda>(n, ci). (n, class_cov rnd a ci)) ` set (a_classes a)"
    by auto
  then show thesis
    by (auto intro: that)
qed

lemma method_entries:
  assumes "(mn, mc) \<in> set (methods_coverage (class_cov rnd a ci))"
  obtains rng where "(mn, rng) \<in> set (methods ci)" and "mc = method_cov rnd a rng"
proof -
  from assms set_fold_dict_set [of "method_cov rnd a" "methods ci" "[]"]
  have "(mn, mc) \<in> (\<lambda>(n, rng). (n, method_cov rnd a rng)) ` set (methods ci)"
    by (auto simp: class_cov_def)
  then show thesis
    by (auto intro: that)
qed

section \<open>Bounds and monotonicity of the percentages\<close>

lemma analyze_file_eq:
  "analyze_file cd a =
     (let a1 = snd (find_conditions a);
          ex = executed_lines_of cd;
          ks = map fst (a_conditions a1)
      in ((length ks, length (filter (\<lambda>l. l \<in> ex) ks)),
          a1\<lparr>a_covered_conditions := a_covered_conditions a \<union> (set ks \<inter> ex),
             a_classes :=
               map (\<lambda>(n, ci).
                      (n, ci\<lparr>covered_conditions :=
                            length (filter (\<lambda>l. l \<in> ex \<and> in_range (start_line ci) (end_line ci) l) ks)\<rparr>))
                   (a_classes a1)\<rparr>))"
  by (simp add: analyze_file_def find_conditions_def executed_lines_of_def file_loop_eq
      class_loop_eq Let_def)

lemma percent_bounds:
  assumes "rounding rnd" and "c \<le> t"
  shows "0 \<le> percent rnd c t \<and> percent rnd c t \<le> 100"
proof (cases "t = 0")
  case True
  then show ?thesis by (simp add: percent_def)
next
  case False
  from assms(1) have m: "mono rnd" and r0: "rnd 0 = 0" and r1: "rnd 1 = 1" and r100: "rnd 100 = 100"
    by (simp_all add: rounding_def)
  from False assms(2) have q: "0 \<le> real c / real t" "real c / real t \<le> 1"
    by simp_all
  from monoD [OF m q(1)] monoD [OF m q(2)] have x: "0 \<le> rnd (real c / real t)" "rnd (real c / real t) \<le> 1"
    by (simp_all add: r0 r1)
  then have "0 \<le> rnd (real c / real t) * 100" "rnd (real c / real t) * 100 \<le> 100"
    by simp_all
  from monoD [OF m this(1)] monoD [OF m this(2)] show ?thesis
    using False by (simp add: percent_def fmul_def r0 r100)
qed

lemma percent_mono:
  assumes "mono rnd" and "c \<le> c'"
  shows "percent rnd c t \<le> percent rnd c' t"
proof (cases "t = 0")
  case True
  then show ?thesis by (simp add: percent_def)
next
  case False
  with assms(2) have "real c / real t \<le> real c' / real t"
    by (simp add: divide_right_mono)
  from monoD [OF assms(1) this] have "rnd (real c / real t) * 100 \<le> rnd (real c' / real t) * 100"
    by simp
  from monoD [OF assms(1) this] show ?thesis
    using False by (simp add: percent_def fmul_def)
qed

lemma length_filter_mono:
  "(\<And>x. x \<in> set xs \<Longrightarrow> P x \<Longrightarrow> Q x) \<Longrightarrow> length (filter P xs) \<le> length (filter Q xs)"
  by (induction xs) auto

lemma dict_le_dict_set:
  "dict_le R d1 d2 \<Longrightarrow> R v w \<Longrightarrow> dict_le R (dict_set k v d1) (dict_set k w d2)"
  unfolding dict_le_def
  by (induction d1 d2 rule: list_all2_induct) auto

lemma dict_le_fold:
  assumes "list_all2 (\<lambda>p q. fst p = fst q \<and> R (f (snd p)) (g (snd q))) xs ys"
    and "dict_le R d1 d2"
  shows "dict_le R (fold (\<lambda>(n, x). dict_set n (f x)) xs d1) (fold (\<lambda>(n, x). dict_set n (g x)) ys d2)"
  using assms
proof (induction xs ys arbitrary: d1 d2 rule: list_all2_induct)
  case Nil
  then show ?case by simp
next
  case (Cons p xs q ys)
  obtain n x where p: "p = (n, x)" by (cases p)
  obtain m y where q: "q = (m, y)" by (cases q)
  from Cons.hyps(1) have nm: "m = n" and R: "R (f x) (g y)"
    by (simp_all add: p q)
  from Cons.prems R have "dict_le R (dict_set n (f x) d1) (dict_set n (g y) d2)"
    by (rule dict_le_dict_set)
  from Cons.IH [OF this] show ?case
    by (simp add: p q nm)
qed

lemma method_cov_le:
  "covered (method_cov rnd a rng) \<le> total_conditions (method_cov rnd a rng)"
  by (auto simp: method_cov_def Let_def intro!: length_filter_mono)

lemma method_cov_mono:
  assumes "mono rnd" and "a_conditions a1 = a_conditions a2"
    and "a_covered_conditions a1 \<subseteq> a_covered_conditions a2"
  shows "coverage_le (method_cov rnd a1 rng) (method_cov rnd a2 rng)"
proof -
  let ?ls = "filter (in_range (fst rng) (snd rng)) (map fst (a_conditions a2))"
  from assms(3)
  have le: "length (filter (\<lambda>l. l \<in> a_covered_conditions a1) ?ls)
              \<le> length (filter (\<lambda>l. l \<in> a_covered_conditions a2) ?ls)"
    by (intro length_filter_mono) auto
  from percent_mono [OF assms(1) le] le show ?thesis
    by (simp add: coverage_le_def method_cov_def Let_def assms(2))
qed

lemma list_all2_same_map:
  "(\<And>x. x \<in> set xs \<Longrightarrow> P (f x) (g x)) \<Longrightarrow> list_all2 P (map f xs) (map g xs)"
  by (induction xs) auto

lemma class_cov_mono:
  assumes "mono rnd" and "a_conditions a1 = a_conditions a2"
    and "a_covered_conditions a1 \<subseteq> a_covered_conditions a2"
    and "conditions ci1 = conditions ci2" and "methods ci1 = methods ci2"
    and "covered_conditions ci1 \<le> covered_conditions ci2"
  shows "class_le (class_cov rnd a1 ci1) (class_cov rnd a2 ci2)"
proof -
  have "list_all2 (\<lambda>p q. fst p = fst q \<and>
           coverage_le (method_cov rnd a1 (snd p)) (method_cov rnd a2 (snd q)))
          (methods ci2) (methods ci2)"
    using method_cov_mono [OF assms(1-3)] by (simp add: list_all2_same)
  then have "dict_le coverage_le
               (fold (\<lambda>(n, rng). dict_set n (method_cov rnd a1 rng)) (methods ci2) [])
               (fold (\<lambda>(n, rng). dict_set n (method_cov rnd a2 rng)) (methods ci2) [])"
    by (rule dict_le_fold) (simp add: dict_le_def)
  with percent_mono [OF assms(1,6), of "conditions ci2"] assms(4-6) show ?thesis
    by (simp add: class_le_def coverage_le_def class_cov_def)
qed

section \<open>The plugin's loop over the files\<close>

lemma process_file_eq:
  "process_file env f p =
     \<lparr>condition_coverage_results = results_step env f (condition_coverage_results p),
      logged = logged p @ [log_step env f]\<rparr>"
  by (simp add: process_file_def results_step_def log_step_def split: sum.splits)

lemma calculate_eq:
  "calculate_condition_coverage env fs p =
     \<lparr>condition_coverage_results = fold (results_step env) fs (condition_coverage_results p),
      logged = logged p @ map (log_step env) fs\<rparr>"
  by (induction fs arbitrary: p) (simp_all add: process_file_eq)

lemma keys_dict_set: "fst ` set (dict_set k v d) = insert k (fst ` set d)"
  by (induction d) (auto simp: rev_image_eqI split: if_splits)

lemma keys_results_step:
  "fst ` set (results_step env f rs) \<subseteq> insert f (fst ` set rs)"
  by (auto simp: results_step_def keys_dict_set split: sum.splits)

lemma keys_fold_results_step:
  "fst ` set (fold (results_step env) fs rs) \<subseteq> set fs \<union> fst ` set rs"
proof (induction fs arbitrary: rs)
  case Nil
  then show ?case by simp
next
  case (Cons f fs)
  from Cons.IH [of "results_step env f rs"] keys_results_step [of env f rs]
  show ?case by auto
qed

lemma generate_report_results:
  "condition_coverage_results p = condition_coverage_results p' \<Longrightarrow>
   generate_report env p = generate_report env p'"
  by (simp add: generate_report_def)

text \<open>
  The report in closed form: the total is computed from the two sums over all files, and
  stays at its initial value when the sum of the totals is 0.
\<close>

lemma report_loop_eq:
  "report_loop rel items (t, c, fs) =
     (t + sum_list (map (\<lambda>(p, d). file_total_conditions d) items),
      c + sum_list (map (\<lambda>(p, d). file_covered_conditions d) items),
      fold (\<lambda>(p, d). dict_set (rel p) d) items fs)"
  by (induction items arbitrary: t c fs) auto

lemma generate_report_eq:
  "generate_report env p =
     (let t = sum_list (map (\<lambda>(p, d). file_total_conditions d) (condition_coverage_results p));
          c = sum_list (map (\<lambda>(p, d). file_covered_conditions d) (condition_coverage_results p))
      in Inr \<lparr>files = fold (\<lambda>(p, d). dict_set (relpath env p) d) (condition_coverage_results p) [],
              total_condition_coverage =
                (if t > 0 then fmul (float_round env) (float_round env (real c / real t)) 100
                 else 0)\<rparr>)"
  by (simp add: generate_report_def report_loop_eq truediv_def Let_def del: sum_list_eq_0_iff)

section \<open>What the traversal leaves unchanged, and the class counter\<close>

lemma frame_refl: "frame v v"
  by (simp add: frame_def same_header_def)

lemma frame_trans:
  assumes "frame v v1" and "frame v1 v2"
  shows "frame v v2"
proof -
  from assms have len: "length (objects v) \<le> length (objects v1)"
    "length (objects v1) \<le> length (objects v2)"
    by (simp_all add: frame_def)
  from assms(1) have c1: "current_class v1 = current_class v \<or> current_class v1 = None \<or>
      (\<exists>k \<ge> length (objects v). current_class v1 = Some k)"
    by (simp add: frame_def)
  from assms(2) have c2: "current_class v2 = current_class v1 \<or> current_class v2 = None \<or>
      (\<exists>k \<ge> length (objects v1). current_class v2 = Some k)"
    by (simp add: frame_def)
  from c1 c2 len have cur: "current_class v2 = current_class v \<or> current_class v2 = None \<or>
      (\<exists>k \<ge> length (objects v). current_class v2 = Some k)"
    by (metis le_trans)
  have hdr: "same_header (objects v ! r) (objects v2 ! r)" if "r < length (objects v)" for r
  proof -
    from that len have "r < length (objects v1)" by simp
    with assms that show ?thesis
      by (simp add: frame_def same_header_def)
  qed
  have same: "objects v2 ! r = objects v ! r"
    if "r < length (objects v)" and "current_class v \<noteq> Some r" for r
  proof -
    from that assms(1) have 1: "objects v1 ! r = objects v ! r"
      by (simp add: frame_def)
    from that c1 have "current_class v1 \<noteq> Some r"
      by auto
    moreover from that len have "r < length (objects v1)" by simp
    ultimately have "objects v2 ! r = objects v1 ! r"
      using assms(2) by (simp add: frame_def)
    with 1 show ?thesis by simp
  qed
  from assms have "names_ok v \<longrightarrow> names_ok v2"
    by (simp add: frame_def)
  with len cur hdr same show ?thesis
    by (simp add: frame_def)
qed

lemma frame_update:
  assumes "current_class v = Some r"
    and "r < length (objects v) \<Longrightarrow> same_header (objects v ! r) ci'"
  shows "frame v (v\<lparr>objects := (objects v)[r := ci']\<rparr>)"
proof -
  have hdr: "same_header (objects v ! q) ((objects v)[r := ci'] ! q)" if "q < length (objects v)" for q
    using that assms(2) by (cases "q = r") (simp_all add: same_header_def)
  then have "names_ok v \<longrightarrow> names_ok (v\<lparr>objects := (objects v)[r := ci']\<rparr>)"
    by (auto simp: names_ok_def same_header_def)
  with hdr assms(1) show ?thesis
    by (auto simp: frame_def)
qed

lemma frame_record_condition: "frame v (record_condition l nd v)"
proof (cases "current_class v")
  case None
  then show ?thesis
    by (simp add: record_condition_def frame_def same_header_def names_ok_def)
next
  case (Some r)
  let ?v = "v\<lparr>v_conditions := dict_set l nd (v_conditions v)\<rparr>"
  have 1: "frame v ?v"
    by (simp add: frame_def same_header_def names_ok_def)
  have "frame ?v (?v\<lparr>objects := (objects ?v)[r := incr_conditions (objects ?v ! r)]\<rparr>)"
    by (rule frame_update) (simp_all add: Some same_header_def incr_conditions_def)
  from frame_trans [OF 1 this] show ?thesis
    by (simp add: record_condition_def Some)
qed

lemma frame_record_method: "frame v (record_method n s e v)"
proof (cases "current_class v")
  case None
  then show ?thesis
    by (simp add: record_method_def frame_refl)
next
  case (Some r)
  have "frame v (v\<lparr>objects := (objects v)[r := add_method n s e (objects v ! r)]\<rparr>)"
    by (rule frame_update) (simp_all add: Some same_header_def add_method_def)
  then show ?thesis
    by (simp add: record_method_def Some)
qed

lemma names_ok_enter_class: "names_ok v \<Longrightarrow> names_ok (enter_class n s e v)"
proof -
  assume ok: "names_ok v"
  let ?k = "length (objects v)"
  have "r < Suc ?k \<and> name ((objects v @ [ClassInfo_init n s e]) ! r) = m"
    if "(m, r) \<in> set (dict_set n ?k (v_classes v))" for m r
  proof -
    from that set_dict_set [of n ?k "v_classes v"]
    have "(m, r) = (n, ?k) \<or> (m, r) \<in> set (v_classes v)"
      by auto
    then show ?thesis
    proof
      assume "(m, r) = (n, ?k)"
      then show ?thesis by (simp add: ClassInfo_init_def)
    next
      assume "(m, r) \<in> set (v_classes v)"
      with ok have "r < ?k" "name (objects v ! r) = m"
        by (auto simp: names_ok_def)
      then show ?thesis by (simp add: nth_append)
    qed
  qed
  then show ?thesis
    by (simp add: names_ok_def enter_class_def Let_def)
qed

lemma frame_enter_class: "frame v (enter_class n s e v)"
proof -
  have "names_ok v \<longrightarrow> names_ok (enter_class n s e v)"
    by (simp add: names_ok_enter_class)
  then show ?thesis
    by (simp add: frame_def enter_class_def Let_def nth_append same_header_def)
qed

lemma frame_current_class: "frame v v' \<Longrightarrow> frame v (v'\<lparr>current_class := None\<rparr>)"
  by (simp add: frame_def names_ok_def)

lemma frame_visit:
  "frame v (visit t v)"
  "frame v (generic_visit ts v)"
proof (induction t v and ts v rule: visit_generic_visit.induct)
  case (1 n lineno end_lineno children v)
  obtain s e where se: "get_node_lines lineno end_lineno = (s, e)"
    by (cases "get_node_lines lineno end_lineno")
  from frame_trans [OF frame_enter_class "1.IH" [OF se [symmetric] refl refl]]
  show ?case
    by (simp add: se frame_current_class)
next
  case (2 n lineno end_lineno children v)
  obtain s e where se: "get_node_lines lineno end_lineno = (s, e)"
    by (cases "get_node_lines lineno end_lineno")
  from frame_trans [OF frame_record_method "2.IH" [OF se [symmetric] refl]]
  show ?case
    by (simp add: se)
next
  case (4 lineno children v)
  from frame_trans [OF frame_record_condition this] show ?case by simp
next
  case (5 lineno children v)
  from frame_trans [OF frame_record_condition this] show ?case by simp
next
  case (6 op lineno children v)
  show ?case
  proof (cases "op = Not")
    case True
    with "6.IH" have "frame (record_condition lineno (UnaryOp op lineno children) v)
        (generic_visit children (record_condition lineno (UnaryOp op lineno children) v))"
      by simp
    from frame_trans [OF frame_record_condition this] True show ?thesis by simp
  next
    case False
    with "6.IH" show ?thesis by simp
  qed
next
  case (9 c cs v)
  from frame_trans [OF "9.IH"] show ?case by simp
qed (simp_all add: frame_refl)

lemma current_record_condition [simp]:
  "current_class (record_condition l nd v) = current_class v"
  by (simp add: record_condition_def Let_def split: option.splits)

lemma current_record_method [simp]:
  "current_class (record_method n s e v) = current_class v"
  by (simp add: record_method_def split: option.splits)

lemma current_class_visit:
  "current_class (visit t v) = current_class v \<or> current_class (visit t v) = None"
  "current_class (generic_visit ts v) = current_class v \<or> current_class (generic_visit ts v) = None"
proof (induction t v and ts v rule: visit_generic_visit.induct)
  case (2 n lineno end_lineno children v)
  obtain s e where se: "get_node_lines lineno end_lineno = (s, e)"
    by (cases "get_node_lines lineno end_lineno")
  from "2.IH" [OF se [symmetric] refl]
  show ?case
    by (simp add: se)
next
  case (6 op lineno children v)
  then show ?case by (cases "op = Not") simp_all
next
  case (9 c cs v)
  then show ?case by auto
qed (simp_all split: prod.splits)

lemma counted_record_condition:
  "current_class v = Some r \<Longrightarrow> r < length (objects v) \<Longrightarrow>
   counted r 1 v (record_condition l nd v)"
  by (simp add: counted_def record_condition_def Let_def incr_conditions_def)

lemma counted_record_method:
  "current_class v = Some r \<Longrightarrow> r < length (objects v) \<Longrightarrow>
   counted r 0 v (record_method n s e v)"
  by (simp add: counted_def record_method_def add_method_def)

lemma counted_trans:
  "counted r j v v1 \<Longrightarrow> counted r k v1 v2 \<Longrightarrow> counted r (j + k) v v2"
  by (simp add: counted_def)

lemma counted_flat:
  "class_defs t = [] \<Longrightarrow> current_class v = Some r \<Longrightarrow> r < length (objects v) \<Longrightarrow>
     counted r (condition_nodes t) v (visit t v)"
  "class_defs_list ts = [] \<Longrightarrow> current_class v = Some r \<Longrightarrow> r < length (objects v) \<Longrightarrow>
     counted r (condition_nodes_list ts) v (generic_visit ts v)"
proof (induction t v and ts v rule: visit_generic_visit.induct)
  case (1 n lineno end_lineno children v)
  then show ?case by simp
next
  case (2 n lineno end_lineno children v)
  obtain s e where se: "get_node_lines lineno end_lineno = (s, e)"
    by (cases "get_node_lines lineno end_lineno")
  from "2.prems"(2,3) have 1: "counted r 0 v (record_method n s e v)"
    by (rule counted_record_method)
  with "2.prems" have "counted r (condition_nodes_list children) (record_method n s e v)
      (generic_visit children (record_method n s e v))"
    by (intro "2.IH" [OF se [symmetric] refl]) (simp_all add: counted_def)
  from counted_trans [OF 1 this] show ?case
    by (simp add: se)
next
  case (3 n lineno end_lineno children v)
  then show ?case by simp
next
  case (4 lineno children v)
  let ?v = "record_condition lineno (Compare lineno children) v"
  from "4.prems"(2,3) have 1: "counted r 1 v ?v"
    by (rule counted_record_condition)
  with "4.prems" have "counted r (condition_nodes_list children) ?v (generic_visit children ?v)"
    by (intro "4.IH") (simp_all add: counted_def)
  from counted_trans [OF 1 this] show ?case
    by simp
next
  case (5 lineno children v)
  let ?v = "record_condition lineno (BoolOp lineno children) v"
  from "5.prems"(2,3) have 1: "counted r 1 v ?v"
    by (rule counted_record_condition)
  with "5.prems" have "counted r (condition_nodes_list children) ?v (generic_visit children ?v)"
    by (intro "5.IH") (simp_all add: counted_def)
  from counted_trans [OF 1 this] show ?case
    by simp
next
  case (6 op lineno children v)
  show ?case
  proof (cases "op = Not")
    case True
    let ?v = "record_condition lineno (UnaryOp op lineno children) v"
    from "6.prems"(2,3) have 1: "counted r 1 v ?v"
      by (rule counted_record_condition)
    with "6.prems" True
    have "counted r (condition_nodes_list children) ?v (generic_visit children ?v)"
      using "6.IH" by (simp add: counted_def)
    from counted_trans [OF 1 this] True show ?thesis
      by simp
  next
    case False
    with "6.prems" "6.IH" show ?thesis
      by simp
  qed
next
  case (7 children v)
  then show ?case by simp
next
  case (8 v)
  then show ?case by (simp add: counted_def)
next
  case (9 c cs v)
  from "9.prems" have 1: "counted r (condition_nodes c) v (visit c v)"
    by (intro "9.IH"(1)) simp_all
  with "9.prems" have "counted r (condition_nodes_list cs) (visit c v) (generic_visit cs (visit c v))"
    by (intro "9.IH"(2)) (simp_all add: counted_def)
  from counted_trans [OF 1 this] show ?case
    by simp
qed

lemma from_class_def_mono:
  "from_class_def D ci \<Longrightarrow> set D \<subseteq> set D' \<Longrightarrow> from_class_def D' ci"
  unfolding from_class_def_def by blast

lemma length_record_condition [simp]:
  "length (objects (record_condition l nd v)) = length (objects v)"
  by (simp add: record_condition_def Let_def split: option.splits)

lemma length_record_method [simp]:
  "length (objects (record_method n s e v)) = length (objects v)"
  by (simp add: record_method_def split: option.splits)

lemma cur_ok_visit:
  assumes "cur_ok v"
  shows "cur_ok (visit t v)" and "cur_ok (generic_visit ts v)"
proof -
  from frame_visit(1) [of v t] have "length (objects v) \<le> length (objects (visit t v))"
    by (simp add: frame_def)
  with assms current_class_visit(1) [of t v] show "cur_ok (visit t v)"
    by (auto simp: cur_ok_def)
  from frame_visit(2) [of v ts] have "length (objects v) \<le> length (objects (generic_visit ts v))"
    by (simp add: frame_def)
  with assms current_class_visit(2) [of ts v] show "cur_ok (generic_visit ts v)"
    by (auto simp: cur_ok_def)
qed

lemma methods_within_trans:
  assumes "methods_within N v v1" and "methods_within M v1 v2"
    and "length (objects v) \<le> length (objects v1)"
  shows "methods_within (N \<union> M) v v2"
  unfolding methods_within_def
proof (intro allI impI)
  fix r assume r: "r < length (objects v)"
  with assms(3) have "r < length (objects v1)"
    by simp
  with assms(1,2) r
  have "set (methods (objects v1 ! r)) \<subseteq> set (methods (objects v ! r)) \<union> N"
    and "set (methods (objects v2 ! r)) \<subseteq> set (methods (objects v1 ! r)) \<union> M"
    by (simp_all add: methods_within_def)
  then show "set (methods (objects v2 ! r)) \<subseteq> set (methods (objects v ! r)) \<union> (N \<union> M)"
    by blast
qed

lemma methods_within_update:
  assumes "r < length (objects v) \<Longrightarrow>
             set (methods ci') \<subseteq> set (methods (objects v ! r)) \<union> N"
    and "objects v' = (objects v)[r := ci']"
  shows "methods_within N v v'"
  unfolding methods_within_def
proof (intro allI impI)
  fix q assume q: "q < length (objects v)"
  show "set (methods (objects v' ! q)) \<subseteq> set (methods (objects v ! q)) \<union> N"
  proof (cases "q = r")
    case True
    with q assms show ?thesis
      by simp
  next
    case False
    with assms(2) show ?thesis
      by simp
  qed
qed

lemma methods_within_record_condition: "methods_within {} v (record_condition l nd v)"
proof (cases "current_class v")
  case None
  then show ?thesis
    by (simp add: methods_within_def record_condition_def)
next
  case (Some r)
  show ?thesis
    by (rule methods_within_update [of r _ "incr_conditions (objects v ! r)"])
      (simp_all add: record_condition_def Let_def Some incr_conditions_def)
qed

lemma methods_within_record_method: "methods_within {(n, s, e)} v (record_method n s e v)"
proof (cases "current_class v")
  case None
  then show ?thesis
    by (auto simp: methods_within_def record_method_def)
next
  case (Some r)
  show ?thesis
    using set_dict_set [of n "(s, e)" "methods (objects v ! r)"]
    by (intro methods_within_update [of r _ "add_method n s e (objects v ! r)"])
      (simp_all add: record_method_def Some add_method_def)
qed

lemma methods_within_enter_class: "methods_within {} v (enter_class n s e v)"
  by (simp add: methods_within_def enter_class_def Let_def nth_append)

lemma length_enter_class [simp]:
  "length (objects (enter_class n s e v)) = Suc (length (objects v))"
  by (simp add: enter_class_def Let_def)

lemma methods_within_visit:
  "methods_within (set (func_defs t)) v (visit t v)"
  "methods_within (set (func_defs_list ts)) v (generic_visit ts v)"
proof (induction t v and ts v rule: visit_generic_visit.induct)
  case (1 n lineno end_lineno children v)
  obtain s e where se: "get_node_lines lineno end_lineno = (s, e)"
    by (cases "get_node_lines lineno end_lineno")
  from methods_within_trans [OF methods_within_enter_class "1.IH" [OF se [symmetric] refl refl]]
  show ?case
    by (simp add: se methods_within_def)
next
  case (2 n lineno end_lineno children v)
  obtain s e where se: "get_node_lines lineno end_lineno = (s, e)"
    by (cases "get_node_lines lineno end_lineno")
  from methods_within_trans [OF methods_within_record_method "2.IH" [OF se [symmetric] refl]]
  show ?case
    by (simp add: se)
next
  case (3 n lineno end_lineno children v)
  then show ?case by simp
next
  case (4 lineno children v)
  from methods_within_trans [OF methods_within_record_condition this] show ?case
    by simp
next
  case (5 lineno children v)
  from methods_within_trans [OF methods_within_record_condition this] show ?case
    by simp
next
  case (6 op lineno children v)
  show ?case
  proof (cases "op = Not")
    case True
    with "6.IH"
    have "methods_within (set (func_defs_list children))
            (record_condition lineno (UnaryOp op lineno children) v)
            (generic_visit children (record_condition lineno (UnaryOp op lineno children) v))"
      by simp
    from methods_within_trans [OF methods_within_record_condition this] True show ?thesis
      by simp
  next
    case False
    with "6.IH" show ?thesis by simp
  qed
next
  case (7 children v)
  then show ?case by simp
next
  case (8 v)
  show ?case by (simp add: methods_within_def)
next
  case (9 c cs v)
  from frame_visit(1) [of v c] have "length (objects v) \<le> length (objects (visit c v))"
    by (simp add: frame_def)
  from methods_within_trans [OF "9.IH" this] show ?case
    by simp
qed

lemma new_objects:
  "cur_ok v \<Longrightarrow> length (objects v) \<le> r \<Longrightarrow> r < length (objects (visit t v)) \<Longrightarrow>
     from_class_def (class_defs t) (objects (visit t v) ! r)"
  "cur_ok v \<Longrightarrow> length (objects v) \<le> r \<Longrightarrow> r < length (objects (generic_visit ts v)) \<Longrightarrow>
     from_class_def (class_defs_list ts) (objects (generic_visit ts v) ! r)"
proof (induction t v and ts v rule: visit_generic_visit.induct)
  case (1 n lineno end_lineno children v)
  obtain s e where se: "get_node_lines lineno end_lineno = (s, e)"
    by (cases "get_node_lines lineno end_lineno")
  let ?k = "length (objects v)"
  let ?v1 = "enter_class n s e v"
  let ?v2 = "generic_visit children ?v1"
  have cur1: "current_class ?v1 = Some ?k" and len1: "length (objects ?v1) = Suc ?k"
    and new1: "objects ?v1 ! ?k = ClassInfo_init n s e"
    by (simp_all add: enter_class_def Let_def)
  then have ok1: "cur_ok ?v1"
    by (simp add: cur_ok_def)
  from "1.prems"(3) have r2: "r < length (objects ?v2)"
    by (simp add: se)
  have "from_class_def (class_defs (ClassDef n lineno end_lineno children)) (objects ?v2 ! r)"
  proof (cases "r = ?k")
    case True
    from frame_visit(2) [of ?v1 children] len1
    have "same_header (objects ?v1 ! ?k) (objects ?v2 ! ?k)"
      by (simp add: frame_def)
    then have hdr: "name (objects ?v2 ! ?k) = n" "start_line (objects ?v2 ! ?k) = s"
      "end_line (objects ?v2 ! ?k) = e"
      by (simp_all add: same_header_def new1 ClassInfo_init_def)
    have cnt: "conditions (objects ?v2 ! ?k) = condition_nodes_list children"
      if "class_defs_list children = []"
      using counted_flat(2) [OF that cur1] len1
      by (simp add: counted_def new1 ClassInfo_init_def)
    from methods_within_visit(2) [of children ?v1] len1
    have "set (methods (objects ?v2 ! ?k))
            \<subseteq> set (methods (objects ?v1 ! ?k)) \<union> set (func_defs_list children)"
      by (simp add: methods_within_def)
    then have ms: "set (methods (objects ?v2 ! ?k)) \<subseteq> set (func_defs_list children)"
      by (simp add: new1 ClassInfo_init_def)
    have "ClassDef (name (objects ?v2 ! ?k)) lineno end_lineno children
            \<in> set (class_defs (ClassDef n lineno end_lineno children)) \<and>
          (start_line (objects ?v2 ! ?k), end_line (objects ?v2 ! ?k)) =
            get_node_lines lineno end_lineno \<and>
          set (methods (objects ?v2 ! ?k)) \<subseteq> set (func_defs_list children) \<and>
          (class_defs_list children = [] \<longrightarrow>
             conditions (objects ?v2 ! ?k) = condition_nodes_list children)"
      using hdr se ms cnt by simp
    then show ?thesis
      unfolding from_class_def_def True by blast
  next
    case False
    with "1.prems"(2) len1 have "length (objects ?v1) \<le> r"
      by simp
    from "1.IH" [OF se [symmetric] refl refl ok1 this r2]
    show ?thesis
      by (rule from_class_def_mono) auto
  qed
  then show ?case
    by (simp add: se)
next
  case (2 n lineno end_lineno children v)
  obtain s e where se: "get_node_lines lineno end_lineno = (s, e)"
    by (cases "get_node_lines lineno end_lineno")
  from "2.prems"(1) have "cur_ok (record_method n s e v)"
    by (simp add: cur_ok_def)
  from "2.IH" [OF se [symmetric] refl this] "2.prems"(2,3) show ?case
    by (simp add: se)
next
  case (3 n lineno end_lineno children v)
  then show ?case by simp
next
  case (4 lineno children v)
  from "4.prems"(1) have "cur_ok (record_condition lineno (Compare lineno children) v)"
    by (simp add: cur_ok_def)
  from "4.IH" [OF this] "4.prems"(2,3) show ?case
    by simp
next
  case (5 lineno children v)
  from "5.prems"(1) have "cur_ok (record_condition lineno (BoolOp lineno children) v)"
    by (simp add: cur_ok_def)
  from "5.IH" [OF this] "5.prems"(2,3) show ?case
    by simp
next
  case (6 op lineno children v)
  let ?v = "if op = Not then record_condition lineno (UnaryOp op lineno children) v else v"
  from "6.prems"(1) have "cur_ok ?v"
    by (simp add: cur_ok_def)
  from "6.IH" [OF this] "6.prems"(2,3) show ?case
    by (simp split: if_splits)
next
  case (7 children v)
  then show ?case by simp
next
  case (8 v)
  then show ?case by simp
next
  case (9 c cs v)
  let ?v1 = "visit c v"
  let ?v2 = "generic_visit cs ?v1"
  from "9.prems"(1) have ok1: "cur_ok ?v1"
    by (rule cur_ok_visit)
  from "9.prems"(3) have r2: "r < length (objects ?v2)"
    by simp
  have "from_class_def (class_defs c @ class_defs_list cs) (objects ?v2 ! r)"
  proof (cases "r < length (objects ?v1)")
    case True
    from "9.IH"(1) [OF "9.prems"(1,2) True]
    have 1: "from_class_def (class_defs c) (objects ?v1 ! r)" .
    from "9.prems"(1,2) current_class_visit(1) [of c v] have "current_class ?v1 \<noteq> Some r"
      by (auto simp: cur_ok_def)
    with frame_visit(2) [of ?v1 cs] True have "objects ?v2 ! r = objects ?v1 ! r"
      by (simp add: frame_def)
    with 1 show ?thesis
      by (auto intro: from_class_def_mono)
  next
    case False
    then have "length (objects ?v1) \<le> r"
      by simp
    from "9.IH"(2) [OF ok1 this r2] show ?thesis
      by (rule from_class_def_mono) auto
  qed
  then show ?case
    by simp
qed

lemma extracted_classes:
  assumes "(cn, ci) \<in> set (a_classes (snd (find_conditions a)))"
  shows "name ci = cn \<and> from_class_def (class_defs (tree a)) ci"
proof -
  let ?v = "visit (tree a) ConditionVisitor_init"
  have "names_ok ConditionVisitor_init" and ok: "cur_ok ConditionVisitor_init"
    by (simp_all add: names_ok_def cur_ok_def ConditionVisitor_init_def)
  with frame_visit(1) [of ConditionVisitor_init "tree a"] have names: "names_ok ?v"
    by (simp add: frame_def)
  from assms obtain r where r: "(cn, r) \<in> set (v_classes ?v)" and ci: "ci = objects ?v ! r"
    by (auto simp: find_conditions_def Let_def)
  from r names have len: "r < length (objects ?v)" and nm: "name (objects ?v ! r) = cn"
    by (auto simp: names_ok_def)
  from new_objects(1) [OF ok _ len] have "from_class_def (class_defs (tree a)) (objects ?v ! r)"
    by (simp add: ConditionVisitor_init_def)
  with nm show ?thesis
    by (simp add: ci)
qed

section \<open>The condition lines of a tree\<close>











section \<open>The class total and the line ranges\<close>

lemma method_cov_total:
  "total_conditions (method_cov rnd a rng) =
     length (filter (in_range (fst rng) (snd rng)) (map fst (a_conditions a)))"
  by (simp add: method_cov_def Let_def)

text \<open>
  What \<open>get_class_coverage\<close> reports for a class: the total is the counter of the
  \<open>ClassInfo\<close> object, the covered count is filtered by the line range of the class,
  each method total is filtered by the line range of the method.
\<close>

lemma class_total_is_counter:
  assumes "analyze_file cd a = ((t, c), a')" and "get_class_coverage rnd a' = Inr r"
    and "(cn, cc) \<in> set r"
  shows "\<exists>ci. (cn, ci) \<in> set (a_classes a') \<and> total_conditions cc = conditions ci \<and>
    (\<exists>lineno end_lineno children.
       ClassDef cn lineno end_lineno children \<in> set (class_defs (tree a)) \<and>
       (start_line ci, end_line ci) = get_node_lines lineno end_lineno \<and>
       (class_defs_list children = [] \<longrightarrow>
          total_conditions cc = condition_nodes_list children)) \<and>
    covered cc =
      length (filter (\<lambda>l. l \<in> executed_lines_of cd \<and> in_range (start_line ci) (end_line ci) l)
                (map fst (a_conditions a'))) \<and>
    (\<forall>mn mc. (mn, mc) \<in> set (methods_coverage cc) \<longrightarrow>
       (\<exists>rng. (mn, rng) \<in> set (methods ci) \<and>
          total_conditions mc =
            length (filter (in_range (fst rng) (snd rng)) (map fst (a_conditions a')))) \<and>
       total_conditions mc \<le> t)"
proof -
  let ?a1 = "snd (find_conditions a)"
  let ?ks = "map fst (a_conditions ?a1)"
  let ?cnt = "\<lambda>ci. length (filter (\<lambda>l. l \<in> executed_lines_of cd \<and>
                                    in_range (start_line ci) (end_line ci) l) ?ks)"
  from assms(1) have t: "t = length ?ks" and conds: "a_conditions a' = a_conditions ?a1"
    and classes: "a_classes a' =
      map (\<lambda>(n, ci). (n, ci\<lparr>covered_conditions := ?cnt ci\<rparr>)) (a_classes ?a1)"
    by (auto simp: analyze_file_eq Let_def)
  from assms(2,3) obtain ci where ci: "(cn, ci) \<in> set (a_classes a')"
    and cc: "cc = class_cov rnd a' ci"
    by (rule class_entries)
  from ci classes obtain ci0 where ci0: "(cn, ci0) \<in> set (a_classes ?a1)"
    and upd: "ci = ci0\<lparr>covered_conditions := ?cnt ci0\<rparr>"
    by auto
  from extracted_classes [OF ci0] have "from_class_def (class_defs (tree a)) ci0" and "name ci0 = cn"
    by simp_all
  then obtain lineno end_lineno children
    where "ClassDef cn lineno end_lineno children \<in> set (class_defs (tree a))"
      and "(start_line ci0, end_line ci0) = get_node_lines lineno end_lineno"
      and "class_defs_list children = [] \<longrightarrow> conditions ci0 = condition_nodes_list children"
    by (auto simp: from_class_def_def)
  then have def: "\<exists>lineno end_lineno children.
       ClassDef cn lineno end_lineno children \<in> set (class_defs (tree a)) \<and>
       (start_line ci, end_line ci) = get_node_lines lineno end_lineno \<and>
       (class_defs_list children = [] \<longrightarrow>
          total_conditions cc = condition_nodes_list children)"
    unfolding cc upd by (auto simp: class_cov_def)
  have cov: "covered cc =
      length (filter (\<lambda>l. l \<in> executed_lines_of cd \<and> in_range (start_line ci) (end_line ci) l)
                (map fst (a_conditions a')))"
    by (simp add: cc upd conds class_cov_def)
  have meth: "(\<exists>rng. (mn, rng) \<in> set (methods ci) \<and>
          total_conditions mc =
            length (filter (in_range (fst rng) (snd rng)) (map fst (a_conditions a')))) \<and>
       total_conditions mc \<le> t"
    if "(mn, mc) \<in> set (methods_coverage cc)" for mn mc
  proof -
    from that obtain rng where rng: "(mn, rng) \<in> set (methods ci)" and mc: "mc = method_cov rnd a' rng"
      unfolding cc by (rule method_entries)
    have tot: "total_conditions mc =
        length (filter (in_range (fst rng) (snd rng)) (map fst (a_conditions a')))"
      unfolding mc by (rule method_cov_total)
    have "total_conditions mc \<le> length (map fst (a_conditions a'))"
      unfolding tot by (rule length_filter_le)
    then have "total_conditions mc \<le> t"
      by (simp add: t conds)
    with rng tot show ?thesis
      by blast
  qed
  have "total_conditions cc = conditions ci"
    by (simp add: cc class_cov_def)
  with ci def cov meth show ?thesis
    by blast
qed

text \<open>
  Where every condition of a class has a line of its own inside its range and no
  function is defined inside a method, counter and line range agree.
\<close>

lemma rollup_holds_on_two_classes:
  "get_class_coverage (\<lambda>x. x) (snd (analyze_file (Some {3}) (fresh_analyzer two_classes))) =
     Inr [(''A'', \<lparr>total_conditions = 1, covered = 1, coverage_percentage = 100,
                  methods_coverage =
                    [(''f'', \<lparr>total_conditions = 1, covered = 1,
                              coverage_percentage = 100\<rparr>)]\<rparr>),
          (''B'', \<lparr>total_conditions = 0, covered = 0, coverage_percentage = 100,
                  methods_coverage = []\<rparr>)] \<and>
   class_total_by_range (snd (analyze_file (Some {3}) (fresh_analyzer two_classes))) ''A''
     \<lparr>total_conditions = 1, covered = 1, coverage_percentage = 100,
      methods_coverage =
        [(''f'', \<lparr>total_conditions = 1, covered = 1, coverage_percentage = 100\<rparr>)]\<rparr> \<and>
   methods_within_class_total
     \<lparr>total_conditions = 1, covered = 1, coverage_percentage = 100,
      methods_coverage =
        [(''f'', \<lparr>total_conditions = 1, covered = 1, coverage_percentage = 100\<rparr>)]\<rparr> \<and>
   class_total_by_range (snd (analyze_file (Some {3}) (fresh_analyzer two_classes))) ''B''
     \<lparr>total_conditions = 0, covered = 0, coverage_percentage = 100, methods_coverage = []\<rparr> \<and>
   methods_within_class_total
     \<lparr>total_conditions = 0, covered = 0, coverage_percentage = 100, methods_coverage = []\<rparr>"
  by (simp add: two_classes_def visitor_defs analyzer_defs coverage_defs Let_def
                class_total_by_range_def methods_within_class_total_def in_range_def)

section \<open>The claims\<close>

text \<open>
  C3. At every level a scope with \<open>total_conditions = 0\<close> has the percentage 100, and
  no level divides by zero: the file-level expression of the plugin and
  \<open>get_class_coverage\<close> return a value, never an error, for every count and every
  analyzer state, and where the total of the file, of a class or of a method is 0 the
  percentage is 100.
\<close>

theorem zero_total_is_100:
  "(\<exists>q. file_percent rnd c t = Inr q \<and> (t = 0 \<longrightarrow> q = 100)) \<and>
   (\<exists>r. get_class_coverage rnd a = Inr r \<and>
      (\<forall>cn cc. (cn, cc) \<in> set r \<longrightarrow>
         (total_conditions cc = 0 \<longrightarrow> coverage_percentage cc = 100) \<and>
         (\<forall>mn mc. (mn, mc) \<in> set (methods_coverage cc) \<longrightarrow>
            total_conditions mc = 0 \<longrightarrow> coverage_percentage mc = 100)))"
proof (intro conjI)
  show "\<exists>q. file_percent rnd c t = Inr q \<and> (t = 0 \<longrightarrow> q = 100)"
    by (simp add: file_percent_eq percent_def)
next
  obtain r where r: "get_class_coverage rnd a = Inr r"
    by (simp add: get_class_coverage_eq)
  have "(total_conditions cc = 0 \<longrightarrow> coverage_percentage cc = 100) \<and>
        (\<forall>mn mc. (mn, mc) \<in> set (methods_coverage cc) \<longrightarrow>
           total_conditions mc = 0 \<longrightarrow> coverage_percentage mc = 100)"
    if "(cn, cc) \<in> set r" for cn cc
  proof -
    from r that obtain ci where cc: "cc = class_cov rnd a ci"
      by (rule class_entries)
    have "total_conditions mc = 0 \<longrightarrow> coverage_percentage mc = 100"
      if "(mn, mc) \<in> set (methods_coverage cc)" for mn mc
    proof -
      from that obtain rng where "mc = method_cov rnd a rng"
        unfolding cc by (rule method_entries)
      then show ?thesis
        by (simp add: method_cov_percent percent_zero)
    qed
    then show ?thesis
      by (auto simp: cc class_cov_percent percent_zero)
  qed
  with r show "\<exists>r. get_class_coverage rnd a = Inr r \<and>
      (\<forall>cn cc. (cn, cc) \<in> set r \<longrightarrow>
         (total_conditions cc = 0 \<longrightarrow> coverage_percentage cc = 100) \<and>
         (\<forall>mn mc. (mn, mc) \<in> set (methods_coverage cc) \<longrightarrow>
            total_conditions mc = 0 \<longrightarrow> coverage_percentage mc = 100))"
    by blast
qed

text \<open>
  The theorem at the two classes above, with line 3 executed and exact arithmetic: class
  \<open>B\<close> has no condition and is reported with 100, and so is a file without conditions.
\<close>

theorem zero_total_is_100_witness:
  "\<exists>r cc. get_class_coverage (\<lambda>x. x)
             (snd (analyze_file (Some {3}) (fresh_analyzer two_classes))) = Inr r \<and>
      (''B'', cc) \<in> set r \<and> total_conditions cc = 0 \<and> coverage_percentage cc = 100 \<and>
      file_percent (\<lambda>x. x) 0 0 = Inr 100"
proof -
  let ?a = "snd (analyze_file (Some {3}) (fresh_analyzer two_classes))"
  let ?B = "\<lparr>total_conditions = 0, covered = 0, coverage_percentage = 100,
             methods_coverage = []\<rparr>"
  have run: "get_class_coverage (\<lambda>x. x) ?a =
     Inr [(''A'', \<lparr>total_conditions = 1, covered = 1, coverage_percentage = 100,
                  methods_coverage =
                    [(''f'', \<lparr>total_conditions = 1, covered = 1,
                              coverage_percentage = 100\<rparr>)]\<rparr>),
          (''B'', ?B)]"
    by (simp add: two_classes_def visitor_defs analyzer_defs coverage_defs Let_def)
  from zero_total_is_100 [of "\<lambda>x. x" 0 0 ?a]
  obtain q r where q: "file_percent (\<lambda>x. x) 0 0 = Inr q" "q = 100"
    and r: "get_class_coverage (\<lambda>x. x) ?a = Inr r"
    and zero: "\<And>cn cc. (cn, cc) \<in> set r \<Longrightarrow> total_conditions cc = 0 \<Longrightarrow>
                 coverage_percentage cc = 100"
    by blast
  from r run have B: "(''B'', ?B) \<in> set r"
    by auto
  from zero [OF B] have "coverage_percentage ?B = 100"
    by simp
  with q r B show ?thesis
    by (intro exI [of _ r] exI [of _ ?B]) simp
qed

text \<open>
  C9. Whatever the tree and the executed lines, \<open>analyze_file\<close> returns a covered
  count that is at most the total, every method entry of \<open>get_class_coverage\<close> has
  \<open>covered_conditions\<close> at most \<open>total_conditions\<close>, and the file-level and
  method-level percentages lie between 0 and 100. (Nothing is said of the class level.)
\<close>

theorem covered_le_total:
  assumes "rounding rnd" and "analyze_file cd a = ((total_n, covered_n), a')"
  shows "covered_n \<le> total_n \<and>
    (\<exists>q. file_percent rnd covered_n total_n = Inr q \<and> 0 \<le> q \<and> q \<le> 100) \<and>
    (\<exists>r. get_class_coverage rnd a' = Inr r \<and>
       (\<forall>cn cc mn mc. (cn, cc) \<in> set r \<longrightarrow> (mn, mc) \<in> set (methods_coverage cc) \<longrightarrow>
          covered mc \<le> total_conditions mc \<and>
          0 \<le> coverage_percentage mc \<and> coverage_percentage mc \<le> 100))"
proof (intro conjI)
  from assms(2) show le: "covered_n \<le> total_n"
    by (auto simp: analyze_file_eq Let_def)
  from percent_bounds [OF assms(1) le]
  show "\<exists>q. file_percent rnd covered_n total_n = Inr q \<and> 0 \<le> q \<and> q \<le> 100"
    by (simp add: file_percent_eq)
  obtain r where r: "get_class_coverage rnd a' = Inr r"
    by (simp add: get_class_coverage_eq)
  have "covered mc \<le> total_conditions mc \<and>
        0 \<le> coverage_percentage mc \<and> coverage_percentage mc \<le> 100"
    if "(cn, cc) \<in> set r" and "(mn, mc) \<in> set (methods_coverage cc)" for cn cc mn mc
  proof -
    from r that(1) obtain ci where "cc = class_cov rnd a' ci"
      by (rule class_entries)
    with that(2) obtain rng where mc: "mc = method_cov rnd a' rng"
      by (auto elim: method_entries)
    from percent_bounds [OF assms(1) method_cov_le [of rnd a' rng]] show ?thesis
      by (simp add: mc method_cov_le method_cov_percent)
  qed
  with r show "\<exists>r. get_class_coverage rnd a' = Inr r \<and>
       (\<forall>cn cc mn mc. (cn, cc) \<in> set r \<longrightarrow> (mn, mc) \<in> set (methods_coverage cc) \<longrightarrow>
          covered mc \<le> total_conditions mc \<and>
          0 \<le> coverage_percentage mc \<and> coverage_percentage mc \<le> 100)"
    by blast
qed


text \<open>The theorem at the two classes above with line 3 executed: 1 of 1 at each level.\<close>

theorem covered_le_total_witness:
  "rounding (\<lambda>x. x) \<and>
   fst (analyze_file (Some {3}) (fresh_analyzer two_classes)) = (1, 1) \<and>
   (1 :: nat) \<le> 1 \<and>
   (\<exists>q. file_percent (\<lambda>x. x) 1 1 = Inr q \<and> 0 \<le> q \<and> q \<le> 100) \<and>
   (\<exists>r cc mc. get_class_coverage (\<lambda>x. x)
           (snd (analyze_file (Some {3}) (fresh_analyzer two_classes))) = Inr r \<and>
      (''A'', cc) \<in> set r \<and> (''f'', mc) \<in> set (methods_coverage cc) \<and>
      covered mc \<le> total_conditions mc \<and>
      0 \<le> coverage_percentage mc \<and> coverage_percentage mc \<le> 100)"
proof -
  let ?a = "fresh_analyzer two_classes"
  let ?f = "\<lparr>total_conditions = 1, covered = 1, coverage_percentage = 100\<rparr>"
  let ?A = "\<lparr>total_conditions = 1, covered = 1, coverage_percentage = 100,
             methods_coverage = [(''f'', ?f)]\<rparr>"
  have rnd: "rounding (\<lambda>x. x)"
    by (simp add: rounding_def mono_def)
  have res: "fst (analyze_file (Some {3}) ?a) = (1, 1)"
    by (simp add: two_classes_def visitor_defs analyzer_defs Let_def)
  then have run: "analyze_file (Some {3}) ?a = ((1, 1), snd (analyze_file (Some {3}) ?a))"
    by (simp add: prod_eq_iff)
  have cov: "get_class_coverage (\<lambda>x. x) (snd (analyze_file (Some {3}) ?a)) =
     Inr [(''A'', ?A),
          (''B'', \<lparr>total_conditions = 0, covered = 0, coverage_percentage = 100,
                  methods_coverage = []\<rparr>)]"
    by (simp add: two_classes_def visitor_defs analyzer_defs coverage_defs Let_def)
  from covered_le_total [OF rnd run]
  obtain q r where le: "(1 :: nat) \<le> 1"
    and q: "file_percent (\<lambda>x. x) 1 1 = Inr q" "0 \<le> q" "q \<le> 100"
    and r: "get_class_coverage (\<lambda>x. x) (snd (analyze_file (Some {3}) ?a)) = Inr r"
    and ms: "\<And>cn cc mn mc. (cn, cc) \<in> set r \<Longrightarrow> (mn, mc) \<in> set (methods_coverage cc) \<Longrightarrow>
               covered mc \<le> total_conditions mc \<and>
               0 \<le> coverage_percentage mc \<and> coverage_percentage mc \<le> 100"
    by blast
  from r cov have A: "(''A'', ?A) \<in> set r"
    by auto
  have f: "(''f'', ?f) \<in> set (methods_coverage ?A)"
    by simp
  from ms [OF A f] A f r q rnd res show ?thesis
    by blast
qed

text \<open>
  C6. Adding a line to the executed set never lowers a covered count or a percentage:
  for the same analyzer, the run with \<open>S \<union> {line}\<close> has a file-level covered count and
  percentage no smaller than the run with \<open>S\<close>, and the class results of the two runs
  have the same class and method names with no smaller \<open>covered_conditions\<close> and
  \<open>coverage_percentage\<close> in every class and every method.
\<close>

theorem executed_line_monotone:
  assumes "mono rnd"
    and "analyze_file (Some S) a = ((t1, c1), a1)"
    and "analyze_file (Some (S \<union> {line})) a = ((t2, c2), a2)"
  shows "c1 \<le> c2 \<and>
    (\<exists>q1 q2. file_percent rnd c1 t1 = Inr q1 \<and> file_percent rnd c2 t2 = Inr q2 \<and> q1 \<le> q2) \<and>
    (\<exists>r1 r2. get_class_coverage rnd a1 = Inr r1 \<and> get_class_coverage rnd a2 = Inr r2 \<and>
       dict_le class_le r1 r2)"
proof -
  let ?a = "snd (find_conditions a)"
  let ?ks = "map fst (a_conditions ?a)"
  let ?cnt = "\<lambda>ex ci. length (filter (\<lambda>l. l \<in> ex \<and> in_range (start_line ci) (end_line ci) l) ?ks)"
  let ?upd = "\<lambda>ex (n, ci). (n, ci\<lparr>covered_conditions := ?cnt ex ci\<rparr>)"
  from assms(2) have t1: "t1 = length ?ks" and c1: "c1 = length (filter (\<lambda>l. l \<in> S) ?ks)"
    and a1: "a1 = ?a\<lparr>a_covered_conditions := a_covered_conditions a \<union> (set ?ks \<inter> S),
                    a_classes := map (?upd S) (a_classes ?a)\<rparr>"
    by (auto simp: analyze_file_eq Let_def executed_lines_of_def)
  from assms(3) have t2: "t2 = length ?ks" and c2: "c2 = length (filter (\<lambda>l. l \<in> S \<union> {line}) ?ks)"
    and a2: "a2 = ?a\<lparr>a_covered_conditions := a_covered_conditions a \<union> (set ?ks \<inter> (S \<union> {line})),
                    a_classes := map (?upd (S \<union> {line})) (a_classes ?a)\<rparr>"
    by (auto simp: analyze_file_eq Let_def executed_lines_of_def)
  have le: "c1 \<le> c2"
    unfolding c1 c2 by (intro length_filter_mono) auto
  have conds: "a_conditions a1 = a_conditions a2"
    by (simp add: a1 a2)
  have sub: "a_covered_conditions a1 \<subseteq> a_covered_conditions a2"
    by (auto simp: a1 a2)
  have "class_le (class_cov rnd a1 (snd (?upd S p))) (class_cov rnd a2 (snd (?upd (S \<union> {line}) p)))"
    for p :: "string \<times> ClassInfo"
  proof -
    obtain n ci where p: "p = (n, ci)" by (cases p)
    have "?cnt S ci \<le> ?cnt (S \<union> {line}) ci"
      by (intro length_filter_mono) auto
    then show ?thesis
      unfolding p by (intro class_cov_mono [OF assms(1) conds sub]) simp_all
  qed
  then have "list_all2 (\<lambda>p q. fst p = fst q \<and>
                 class_le (class_cov rnd a1 (snd p)) (class_cov rnd a2 (snd q)))
               (a_classes a1) (a_classes a2)"
    unfolding a1 a2 by (auto intro!: list_all2_same_map simp: split_beta)
  then have "dict_le class_le
               (fold (\<lambda>(n, ci). dict_set n (class_cov rnd a1 ci)) (a_classes a1) [])
               (fold (\<lambda>(n, ci). dict_set n (class_cov rnd a2 ci)) (a_classes a2) [])"
    by (rule dict_le_fold) (simp add: dict_le_def)
  with le percent_mono [OF assms(1) le, of t1] show ?thesis
    by (simp add: file_percent_eq get_class_coverage_eq t1 t2)
qed

text \<open>The theorem at the two classes above, from no executed line to line 3.\<close>

theorem executed_line_monotone_witness:
  "mono (\<lambda>x :: real. x) \<and>
   fst (analyze_file (Some {}) (fresh_analyzer two_classes)) = (1, 0) \<and>
   fst (analyze_file (Some ({} \<union> {3})) (fresh_analyzer two_classes)) = (1, 1) \<and>
   (0 :: nat) \<le> 1 \<and>
   (\<exists>q1 q2. file_percent (\<lambda>x. x) 0 1 = Inr q1 \<and> file_percent (\<lambda>x. x) 1 1 = Inr q2 \<and>
      q1 \<le> q2) \<and>
   (\<exists>r1 r2.
      get_class_coverage (\<lambda>x. x)
        (snd (analyze_file (Some {}) (fresh_analyzer two_classes))) = Inr r1 \<and>
      get_class_coverage (\<lambda>x. x)
        (snd (analyze_file (Some ({} \<union> {3})) (fresh_analyzer two_classes))) = Inr r2 \<and>
      dict_le class_le r1 r2)"
proof -
  let ?a = "fresh_analyzer two_classes"
  have rnd: "mono (\<lambda>x :: real. x)"
    by (simp add: mono_def)
  have res1: "fst (analyze_file (Some {}) ?a) = (1, 0)"
    by (simp add: two_classes_def visitor_defs analyzer_defs Let_def)
  then have run1: "analyze_file (Some {}) ?a = ((1, 0), snd (analyze_file (Some {}) ?a))"
    by (simp add: prod_eq_iff)
  have res2: "fst (analyze_file (Some ({} \<union> {3})) ?a) = (1, 1)"
    by (simp add: two_classes_def visitor_defs analyzer_defs Let_def)
  then have run2: "analyze_file (Some ({} \<union> {3})) ?a =
                     ((1, 1), snd (analyze_file (Some ({} \<union> {3})) ?a))"
    by (simp add: prod_eq_iff)
  from executed_line_monotone [OF rnd run1 run2] rnd res1 res2 show ?thesis
    by simp
qed

text \<open>
  C7. A source text that does not parse makes the constructor of the analyzer raise the
  parse error. In the plugin's loop the error is caught at that file: the file adds one
  \<open>ERROR\<close> record to the log and nothing to the results, and the files after it are
  processed as before, so the results and the report of the batch are those of the batch
  without the file, and the file is not among the results.
\<close>

theorem parse_error_skips_file:
  assumes "f \<in> measured_files env" and "read_source env f = Inr src"
    and "ast_parse env src = Inl e"
  shows "ConditionCoverageAnalyzer_init (ast_parse env) src = Inl e \<and>
    process_file env f p = p\<lparr>logged := logged p @ [ERROR f e]\<rparr> \<and>
    condition_coverage_results (calculate_condition_coverage env (fs1 @ f # fs2) p) =
      condition_coverage_results (calculate_condition_coverage env (fs1 @ fs2) p) \<and>
    generate_report env (calculate_condition_coverage env (fs1 @ f # fs2) p) =
      generate_report env (calculate_condition_coverage env (fs1 @ fs2) p) \<and>
    logged (calculate_condition_coverage env (fs1 @ f # fs2) p) =
      logged (calculate_condition_coverage env fs1 p) @ ERROR f e #
      map (log_step env) fs2 \<and>
    (f \<notin> set fs1 \<union> set fs2 \<union> fst ` set (condition_coverage_results p) \<longrightarrow>
       f \<notin> fst ` set (condition_coverage_results
                         (calculate_condition_coverage env (fs1 @ f # fs2) p)))"
proof -
  from assms(3) have init: "ConditionCoverageAnalyzer_init (ast_parse env) src = Inl e"
    by (simp add: ConditionCoverageAnalyzer_init_def)
  with assms(2) have src: "analyze_source env f = Inl e"
    by (simp add: analyze_source_def)
  with assms(1) have step: "results_step env f rs = rs" and lg: "log_step env f = ERROR f e" for rs
    by (simp_all add: results_step_def log_step_def)
  have res: "condition_coverage_results (calculate_condition_coverage env (fs1 @ f # fs2) p) =
      condition_coverage_results (calculate_condition_coverage env (fs1 @ fs2) p)"
    by (simp add: calculate_eq step)
  have "fst ` set (condition_coverage_results (calculate_condition_coverage env (fs1 @ fs2) p))
          \<subseteq> set (fs1 @ fs2) \<union> fst ` set (condition_coverage_results p)"
    using keys_fold_results_step [of env "fs1 @ fs2" "condition_coverage_results p"]
    by (simp only: calculate_eq ConditionCoveragePlugin.simps)
  with res have "f \<notin> set fs1 \<union> set fs2 \<union> fst ` set (condition_coverage_results p) \<longrightarrow>
       f \<notin> fst ` set (condition_coverage_results
                         (calculate_condition_coverage env (fs1 @ f # fs2) p))"
    by auto
  with init res generate_report_results [OF res] show ?thesis
    by (simp add: process_file_eq step lg calculate_eq)
qed

text \<open>The theorem at the batch \<open>bad.py\<close>, \<open>a.py\<close> of the sample environment.\<close>

theorem parse_error_skips_file_witness:
  "''bad.py'' \<in> measured_files sample_env \<and>
   read_source sample_env ''bad.py'' = Inr ''source of bad.py'' \<and>
   ast_parse sample_env ''source of bad.py'' = Inl SyntaxError \<and>
   ConditionCoverageAnalyzer_init (ast_parse sample_env) ''source of bad.py'' = Inl SyntaxError \<and>
   map fst (condition_coverage_results
     (calculate_condition_coverage sample_env ([] @ ''bad.py'' # [''a.py''])
        ConditionCoveragePlugin_init)) = [''a.py''] \<and>
   condition_coverage_results
     (calculate_condition_coverage sample_env ([] @ ''bad.py'' # [''a.py''])
        ConditionCoveragePlugin_init) =
   condition_coverage_results
     (calculate_condition_coverage sample_env ([] @ [''a.py'']) ConditionCoveragePlugin_init) \<and>
   logged
     (calculate_condition_coverage sample_env ([] @ ''bad.py'' # [''a.py''])
        ConditionCoveragePlugin_init) = [ERROR ''bad.py'' SyntaxError, INFO ''a.py'']"
proof -
  have h1: "''bad.py'' \<in> measured_files sample_env"
    by (simp add: sample_env_def)
  have h2: "read_source sample_env ''bad.py'' = Inr ''source of bad.py''"
    by (simp add: sample_env_def)
  have h3: "ast_parse sample_env ''source of bad.py'' = Inl SyntaxError"
    by (simp add: sample_env_def)
  have keys: "map fst (condition_coverage_results
     (calculate_condition_coverage sample_env ([] @ ''bad.py'' # [''a.py''])
        ConditionCoveragePlugin_init)) = [''a.py'']"
    by (simp add: plugin_defs two_classes_def visitor_defs analyze_file_def
                  find_conditions_def coverage_defs Let_def)
  have lg: "logged
     (calculate_condition_coverage sample_env ([] @ ''bad.py'' # [''a.py''])
        ConditionCoveragePlugin_init) = [ERROR ''bad.py'' SyntaxError, INFO ''a.py'']"
    by (simp add: plugin_defs two_classes_def visitor_defs analyze_file_def
                  find_conditions_def coverage_defs Let_def)
  from parse_error_skips_file [OF h1 h2 h3, of ConditionCoveragePlugin_init "[]" "[''a.py'']"]
  have "ConditionCoverageAnalyzer_init (ast_parse sample_env) ''source of bad.py'' =
          Inl SyntaxError"
    and "condition_coverage_results
           (calculate_condition_coverage sample_env ([] @ ''bad.py'' # [''a.py''])
              ConditionCoveragePlugin_init) =
         condition_coverage_results
           (calculate_condition_coverage sample_env ([] @ [''a.py''])
              ConditionCoveragePlugin_init)"
    by blast+
  with h1 h2 h3 keys lg show ?thesis
    by blast
qed

text \<open>
  C4. The report's \<open>total_condition_coverage\<close> starts at 0.0 and is assigned only
  when the sum of the totals is positive. For a batch whose files have no condition at
  all, here the single empty module, the file is reported with 100 and the report's
  total with 0, where the claim says 100.
\<close>

theorem report_total_of_empty_batch:
  "generate_report sample_env
     (calculate_condition_coverage sample_env [''empty.py''] ConditionCoveragePlugin_init) =
   Inr \<lparr>files = [(''empty.py'',
                   \<lparr>condition_coverage = 100, file_total_conditions = 0,
                    file_covered_conditions = 0, classes = []\<rparr>)],
        total_condition_coverage = 0\<rparr>"
  by (simp add: plugin_defs visitor_defs analyze_file_def find_conditions_def coverage_defs
                Let_def)

text \<open>
  C1. The file-level total is \<open>len(self.conditions)\<close>, and \<open>self.conditions\<close> is a
  dictionary keyed by line number, so the comparison and the boolean combination of
  \<open>if a == b and c:\<close> share one entry: the line has 2 condition nodes and adds 1 to the
  file-level total. The class counter, incremented in the same three visitor methods,
  counts both nodes.
\<close>

theorem same_line_counts_once:
  "condition_nodes same_line = 2 \<and>
   fst (find_conditions (fresh_analyzer same_line)) = 1 \<and>
   fst (find_conditions (fresh_analyzer same_line_in_class)) = 1 \<and>
   map (\<lambda>(n, ci). (n, conditions ci))
     (a_classes (snd (find_conditions (fresh_analyzer same_line_in_class)))) = [(''Foo'', 2)]"
  by (simp add: same_line_def same_line_in_class_def visitor_defs analyzer_defs Let_def)

text \<open>
  C5. \<open>visit_ClassDef\<close> ends with \<open>self.current_class = None\<close>: after any class
  definition there is no current class, whatever it was before. In the nested sample the
  method \<open>m\<close> and its condition come after \<open>Inner\<close> and are attributed to no class:
  \<open>Outer\<close> ends with an empty method table and a counter of 0.
\<close>

theorem class_exit_resets_current_class:
  "current_class (visit (ClassDef n lineno end_lineno children) v) = None \<and>
   a_classes (snd (find_conditions (fresh_analyzer nested_class))) =
     [(''Outer'', \<lparr>name = ''Outer'', start_line = 1, end_line = 6, methods = [],
                   conditions = 0, covered_conditions = 0\<rparr>),
      (''Inner'', \<lparr>name = ''Inner'', start_line = 2, end_line = 3, methods = [],
                   conditions = 0, covered_conditions = 0\<rparr>)]"
  by (simp add: nested_class_def visitor_defs analyzer_defs Let_def split: prod.splits)

text \<open>
  C8. Extraction depends on the tree alone. \<open>find_conditions\<close> builds a new visitor at
  each call, so a second run on the same analyzer returns what the first one returned,
  two analyzers with the same tree get the same count, condition map and class table
  whatever their other fields hold, and the run changes no field but these two tables.
  \<open>ast.parse\<close> is a function of the source text, so the same holds of the text.
\<close>

theorem extraction_is_pure:
  "find_conditions (snd (find_conditions a)) = find_conditions a \<and>
   source_code (snd (find_conditions a)) = source_code a \<and>
   tree (snd (find_conditions a)) = tree a \<and>
   a_covered_conditions (snd (find_conditions a)) = a_covered_conditions a \<and>
   (tree b = tree a \<longrightarrow>
      fst (find_conditions b) = fst (find_conditions a) \<and>
      a_conditions (snd (find_conditions b)) = a_conditions (snd (find_conditions a)) \<and>
      a_classes (snd (find_conditions b)) = a_classes (snd (find_conditions a)))"
  by (simp add: find_conditions_def Let_def)

text \<open>
  The theorem at the two classes above, for a new analyzer and one whose tables and
  covered lines were filled by an earlier run.
\<close>

theorem extraction_is_pure_witness:
  "tree (snd (analyze_file (Some {3}) (fresh_analyzer two_classes))) =
     tree (fresh_analyzer two_classes) \<and>
   fst (find_conditions (snd (analyze_file (Some {3}) (fresh_analyzer two_classes)))) =
     fst (find_conditions (fresh_analyzer two_classes)) \<and>
   a_conditions (snd (find_conditions
       (snd (analyze_file (Some {3}) (fresh_analyzer two_classes))))) =
     a_conditions (snd (find_conditions (fresh_analyzer two_classes))) \<and>
   a_classes (snd (find_conditions
       (snd (analyze_file (Some {3}) (fresh_analyzer two_classes))))) =
     a_classes (snd (find_conditions (fresh_analyzer two_classes)))"
proof -
  let ?a = "fresh_analyzer two_classes"
  let ?b = "snd (analyze_file (Some {3}) ?a)"
  have same: "tree ?b = tree ?a"
    by (simp add: analyze_file_eq find_conditions_def Let_def)
  with extraction_is_pure [of ?a ?b] show ?thesis
    by blast
qed





text \<open>
  C2. The class total is the counter of the class, incremented at each condition node
  visited while the class is current, whereas the covered count of the same class and the
  method totals are filtered by line range. On the decorated sample the counter includes
  the comparison of the decorator on line 1: with every line executed the class is
  reported with 2 of 3, the class total is not the number of condition lines within the
  range 2 to 8, which is 2, and the totals of \<open>f\<close> and of \<open>g\<close>, defined inside \<open>f\<close>,
  sum to 4.
\<close>

theorem rollup_fails_on_decorated_class:
  "get_class_coverage (\<lambda>x. x)
     (snd (analyze_file (Some {1, 2, 3, 4, 5, 6, 7, 8}) (fresh_analyzer decorated_nested))) =
     Inr [(''A'', \<lparr>total_conditions = 3, covered = 2, coverage_percentage = 200 / 3,
                  methods_coverage =
                    [(''f'', \<lparr>total_conditions = 2, covered = 2, coverage_percentage = 100\<rparr>),
                     (''g'', \<lparr>total_conditions = 2, covered = 2, coverage_percentage = 100\<rparr>)]\<rparr>)] \<and>
   \<not> class_total_by_range
       (snd (analyze_file (Some {1, 2, 3, 4, 5, 6, 7, 8}) (fresh_analyzer decorated_nested))) ''A''
       \<lparr>total_conditions = 3, covered = 2, coverage_percentage = 200 / 3,
        methods_coverage =
          [(''f'', \<lparr>total_conditions = 2, covered = 2, coverage_percentage = 100\<rparr>),
           (''g'', \<lparr>total_conditions = 2, covered = 2, coverage_percentage = 100\<rparr>)]\<rparr> \<and>
   \<not> methods_within_class_total
       \<lparr>total_conditions = 3, covered = 2, coverage_percentage = 200 / 3,
        methods_coverage =
          [(''f'', \<lparr>total_conditions = 2, covered = 2, coverage_percentage = 100\<rparr>),
           (''g'', \<lparr>total_conditions = 2, covered = 2, coverage_percentage = 100\<rparr>)]\<rparr>"
  by (simp add: decorated_nested_def visitor_defs analyzer_defs coverage_defs Let_def
                class_total_by_range_def methods_within_class_total_def in_range_def)

end
